theory Spec2Isabelle
  imports Complex_Main "HOL-Library.Word" "HOL-Library.AList" "HOL-Library.Log_Nat"
begin

section \<open>Python values, exceptions and the vendor driver\<close>

text \<open>
  The repository wraps the PicoScope 4000A driver in two classes, both called
  \<open>Picoscope\<close>: the block-mode class of \<open>ps4824a_wrapper_blockmode_utils.py\<close> and the
  streaming class of \<open>ps4824a_wrapper.py\<close>. Every method is embedded as a function that takes
  the object's fields and returns them updated together with the outcome: a Python exception
  leaves the fields as they were mutated up to the raise, so the state is returned in both
  cases.

  Python \<open>int\<close> is \<open>int\<close>: channel ranges and trigger thresholds in millivolts, sample
  counts, and the trigger's direction, delay and timeout are integers, as in the defaults
  and in every caller. The block duration and the pre-trigger fraction are Python numbers,
  an \<open>int\<close> or a \<open>float\<close>, and the arithmetic on them is that of Python on IEEE doubles
  (see below). The analog offset, which is only handed on to the driver, and converted
  samples are exact rationals; \<open>ctypes.c_int16\<close> and \<open>numpy.int16\<close> are \<open>16 word\<close>. Console
  output is not part of the model, except where formatting it can raise.
\<close>

type_synonym channel = string

datatype error =
    PicoError nat
  | SystemExit
  | KeyError
  | ValueError
  | IndexError
  | ZeroDivisionError
  | OverflowError
  | AttributeError
  | UnboundLocalError

text \<open>
  The driver is an external collaborator. Each call is recorded with the arguments the
  wrapper passes (the channel as the number \<open>PS4000A_CHANNEL\<close> gives it), and the driver
  answers with a status and with whatever it writes through the pointers it was handed. Its
  answer may depend on everything that happened before, so a driver is a function of the
  event history and the call. The history also records each time the driver calls the
  streaming callback back (with the sample count, the start index and the auto-stop flag it
  passes) and each \<open>time.sleep(0.01)\<close> of the wrapper.
\<close>

datatype driver_call =
    OpenUnit
  | ChangePowerSource nat
  | MaximumValue
  | SetChannel nat bool nat rat
  | SetSimpleTrigger nat int int int int
  | GetTimebase2 int int
  | SetDataBuffers nat int
  | RunBlock int int int
  | IsReady
  | GetValues int
  | RunStreaming int nat nat
  | GetStreamingLatestValues

datatype event = Call driver_call | Callback nat nat bool | Sleep

record reply =
  status :: nat
  out_value :: "16 word"
  out_samples :: "channel \<Rightarrow> 16 word list"
  out_segment :: "(nat \<times> nat \<times> bool) option"

type_synonym driver = "event list \<Rightarrow> driver_call \<Rightarrow> reply"

text \<open>
  Modelled from the spec: \<open>assert_pico_ok\<close> of the picosdk package, not contained in the
  repository. A driver call that returns a status other than success (\<open>PICO_OK\<close>, zero) is
  a hardware error, raised as an exception that carries the status.
\<close>

definition assert_pico_ok :: "nat \<Rightarrow> error + unit" where
  "assert_pico_ok st = (if st = 0 then Inr () else Inl (PicoError st))"

text \<open>
  Modelled from the spec: the fixed channel-name enumeration \<open>ps.PS4000A_CHANNEL\<close> of the
  picosdk package, looked up as \<open>'PS4000A_CHANNEL_' + name\<close>. The names are the single
  capital letters A to H of the wrapper's docstrings, numbered from zero; any other name is
  a \<open>KeyError\<close>.
\<close>

definition PS4000A_CHANNEL :: "channel \<Rightarrow> nat option" where
  "PS4000A_CHANNEL name =
     map_of [(''A'', 0), (''B'', 1), (''C'', 2), (''D'', 3),
             (''E'', 4), (''F'', 5), (''G'', 6), (''H'', 7)] name"

text \<open>Python's \<open>round\<close> on a number: the nearest integer, a tie going to the even one.\<close>

definition py_round :: "rat \<Rightarrow> int" where
  "py_round x =
     (let f = \<lfloor>x\<rfloor>; d = x - of_int f
      in if d < 1 / 2 then f
         else if 1 / 2 < d then f + 1
         else if even f then f else f + 1)"

text \<open>\<open>list.index\<close>: the first position of a value, \<open>None\<close> where Python raises.\<close>

fun index_of :: "'a list \<Rightarrow> 'a \<Rightarrow> nat option" where
  "index_of [] y = None"
| "index_of (x # xs) y = (if x = y then Some 0 else map_option Suc (index_of xs y))"

section \<open>Python floats\<close>

text \<open>
  A Python \<open>float\<close> is an IEEE double: a rational that has a 53-bit significand and an
  exponent in the double range, an infinity or a NaN. The sign of a zero is not kept: no
  operation used here tells the two zeros apart (dividing by either raises, the floor of
  either is 0). \<open>to_double\<close> rounds a rational to the nearest double, a tie to the even
  significand, with gradual underflow and with overflow to an infinity; it is also how a
  literal such as \<open>0.01\<close> is read. A Python number is an \<open>int\<close> or a \<open>float\<close>.
\<close>

datatype pyfloat = Finite rat | PosInf | NegInf | NaN

datatype number = PyInt int | PyFloat pyfloat

definition pow2 :: "int \<Rightarrow> rat" where
  "pow2 e = (if 0 \<le> e then 2 ^ nat e else 1 / 2 ^ nat (- e))"

text \<open>The exponent of a positive rational: the largest \<open>e\<close> with \<open>2 ^ e \<le> a\<close>.\<close>

definition exponent_of :: "rat \<Rightarrow> int" where
  "exponent_of a =
     (let (n, d) = quotient_of a; e = bitlen n - bitlen d
      in if pow2 e \<le> a then e else e - 1)"

definition is_negative :: "pyfloat \<Rightarrow> bool" where
  "is_negative x = (case x of Finite r \<Rightarrow> r < 0 | NegInf \<Rightarrow> True | _ \<Rightarrow> False)"

definition infinity :: "bool \<Rightarrow> pyfloat" where
  "infinity negative = (if negative then NegInf else PosInf)"

text \<open>
  The significand is the rational scaled to 53 bits (to the least exponent, for a subnormal)
  and rounded. A rational whose exponent is above 1023, or whose significand rounds up to
  \<open>2 ^ 53\<close> at exponent 1023, is beyond the largest double.
\<close>

definition to_double :: "rat \<Rightarrow> pyfloat" where
  "to_double x =
     (if x = 0 then Finite 0
      else (let a = \<bar>x\<bar>; e = exponent_of a
            in if 1023 < e then infinity (x < 0)
               else (let q = pow2 (max e (- 1022) - 52);
                         m = py_round (a / q)
                     in if e = 1023 \<and> 2 ^ 53 \<le> m then infinity (x < 0)
                        else Finite (if 0 < x then of_int m * q else - (of_int m * q)))))"

text \<open>
  \<open>x / y\<close> and \<open>x * y\<close> on floats. Python raises \<open>ZeroDivisionError\<close> for a zero divisor
  whatever the dividend is; overflow gives an infinity and an undefined form a NaN, with no
  exception.
\<close>

fun float_div :: "pyfloat \<Rightarrow> pyfloat \<Rightarrow> error + pyfloat" where
  "float_div x (Finite b) =
     (if b = 0 then Inl ZeroDivisionError
      else case x of
             Finite a \<Rightarrow> Inr (to_double (a / b))
           | NaN \<Rightarrow> Inr NaN
           | _ \<Rightarrow> Inr (infinity (is_negative x \<noteq> (b < 0))))"
| "float_div x NaN = Inr NaN"
| "float_div (Finite a) y = Inr (Finite 0)"
| "float_div x y = Inr NaN"

fun float_mul :: "pyfloat \<Rightarrow> pyfloat \<Rightarrow> pyfloat" where
  "float_mul NaN y = NaN"
| "float_mul x NaN = NaN"
| "float_mul (Finite a) (Finite b) = to_double (a * b)"
| "float_mul x y =
     (if x = Finite 0 \<or> y = Finite 0 then NaN
      else infinity (is_negative x \<noteq> is_negative y))"

text \<open>
  An \<open>int\<close> that meets a \<open>float\<close> in an operation is converted first, to the nearest double;
  one beyond the double range raises \<open>OverflowError\<close>.
\<close>

definition int_to_float :: "int \<Rightarrow> error + pyfloat" where
  "int_to_float n =
     (case to_double (of_int n) of Finite r \<Rightarrow> Inr (Finite r) | _ \<Rightarrow> Inl OverflowError)"

text \<open>
  \<open>n / y\<close> for an \<open>int\<close> \<open>n\<close>: between two \<open>int\<close>s the exact quotient is rounded once, and
  raises when the divisor is zero or the quotient beyond the double range.
\<close>

definition true_div :: "int \<Rightarrow> number \<Rightarrow> error + pyfloat" where
  "true_div n y =
     (case y of
        PyInt d \<Rightarrow>
          if d = 0 then Inl ZeroDivisionError
          else (case to_double (of_int n / of_int d) of
                  Finite r \<Rightarrow> Inr (Finite r)
                | _ \<Rightarrow> Inl OverflowError)
      | PyFloat f \<Rightarrow>
          (case int_to_float n of Inl e \<Rightarrow> Inl e | Inr a \<Rightarrow> float_div a f))"

definition int_mul :: "int \<Rightarrow> number \<Rightarrow> error + number" where
  "int_mul n y =
     (case y of
        PyInt m \<Rightarrow> Inr (PyInt (n * m))
      | PyFloat f \<Rightarrow>
          (case int_to_float n of Inl e \<Rightarrow> Inl e | Inr a \<Rightarrow> Inr (PyFloat (float_mul a f))))"

text \<open>\<open>math.floor\<close>: an \<open>int\<close> is returned as it is; an infinity and a NaN raise.\<close>

definition py_floor :: "number \<Rightarrow> error + int" where
  "py_floor x =
     (case x of
        PyInt n \<Rightarrow> Inr n
      | PyFloat f \<Rightarrow>
          (case f of
             Finite r \<Rightarrow> Inr \<lfloor>r\<rfloor>
           | NaN \<Rightarrow> Inl ValueError
           | _ \<Rightarrow> Inl OverflowError))"

text \<open>An \<open>int\<close> is compared with a \<open>float\<close> by value, without rounding the \<open>int\<close>.\<close>

definition int_le_float :: "int \<Rightarrow> pyfloat \<Rightarrow> bool" where
  "int_le_float n x = (case x of Finite r \<Rightarrow> of_int n \<le> r | PosInf \<Rightarrow> True | _ \<Rightarrow> False)"

section \<open>The block-mode class\<close>

text \<open>
  A sample buffer of the block-mode object is either the \<open>ctypes\<close> array that \<open>run_block\<close>
  allocated and handed to the driver, or the Python list of millivolt values that
  \<open>convert_ADC_units\<close> put in its place. The driver writes through the pointer it was given,
  so it can reach the former and never the latter.
\<close>

datatype buffer = CArray "16 word list" | PyList "rat list"

record picoscope =
  buffers :: "(channel \<times> buffer) list"
  active_channels :: "channel list"
  channel_ranges :: "(channel \<times> nat) list"
  max_ADC :: "16 word"
  timebase :: "int option"
  block_size :: "int option"
  pre_trigger_samples :: "int option"
  post_trigger_samples :: "int option"
  trace :: "event list"

definition allowed_ranges :: "int list" where
  "allowed_ranges = [10, 20, 50, 100, 200, 500, 1000, 2000, 5000, 10000, 20000, 50000]"

definition invoke :: "driver \<Rightarrow> driver_call \<Rightarrow> picoscope \<Rightarrow> reply \<times> picoscope" where
  "invoke drv c s = (drv (trace s) c, s\<lparr>trace := trace s @ [Call c]\<rparr>)"

subsection \<open>Opening the device\<close>

text \<open>
  \<open>Picoscope_init\<close> is \<open>__init__\<close> and \<open>get_max_ADC\<close> is \<open>_get_max_ADC\<close>. A device that
  opens with status 286 is asked once to change its power source.
\<close>

definition get_max_ADC :: "driver \<Rightarrow> picoscope \<Rightarrow> (error + unit) \<times> picoscope" where
  "get_max_ADC drv s =
     (let (r, s1) = invoke drv MaximumValue (s\<lparr>max_ADC := 0\<rparr>);
          s2 = s1\<lparr>max_ADC := out_value r\<rparr>
      in (assert_pico_ok (status r), s2))"

definition new_picoscope :: picoscope where
  "new_picoscope =
     \<lparr>buffers = [], active_channels = [], channel_ranges = [], max_ADC = 0,
      timebase = None, block_size = None, pre_trigger_samples = None,
      post_trigger_samples = None, trace = []\<rparr>"

definition Picoscope_init :: "driver \<Rightarrow> (error + unit) \<times> picoscope" where
  "Picoscope_init drv =
     (let (r, s1) = invoke drv OpenUnit new_picoscope
      in case assert_pico_ok (status r) of
           Inr _ \<Rightarrow> get_max_ADC drv s1
         | Inl e \<Rightarrow>
             if status r = 286
             then (let (r2, s2) = invoke drv (ChangePowerSource (status r)) s1
                   in case assert_pico_ok (status r2) of
                        Inl e2 \<Rightarrow> (Inl e2, s2)
                      | Inr _ \<Rightarrow> get_max_ADC drv s2)
             else (Inl e, s1))"

subsection \<open>Channel configuration\<close>

definition coerce_channel_range :: "int \<Rightarrow> error + nat" where
  "coerce_channel_range channel_range_mv =
     (let coerced_range =
            (case List.find (\<lambda>x. \<bar>channel_range_mv\<bar> \<le> x) allowed_ranges of
               Some x \<Rightarrow> x
             | None \<Rightarrow> last allowed_ranges)
      in case index_of allowed_ranges coerced_range of
           None \<Rightarrow> Inl ValueError
         | Some i \<Rightarrow> Inr i)"

definition setup_channel ::
  "driver \<Rightarrow> picoscope \<Rightarrow> channel \<Rightarrow> rat \<Rightarrow> int \<Rightarrow> bool \<Rightarrow> (error + unit) \<times> picoscope" where
  "setup_channel drv s channel_name analog_offset channel_range_mv coupling_DC =
     (case coerce_channel_range channel_range_mv of
        Inl e \<Rightarrow> (Inl e, s)
      | Inr channel_range \<Rightarrow>
          (case PS4000A_CHANNEL channel_name of
             None \<Rightarrow> (Inl KeyError, s)
           | Some ch \<Rightarrow>
               (let (r, s1) = invoke drv (SetChannel ch coupling_DC channel_range analog_offset) s
                in case assert_pico_ok (status r) of
                     Inl e \<Rightarrow> (Inl e, s1)
                   | Inr _ \<Rightarrow>
                       (Inr (),
                        s1\<lparr>active_channels := active_channels s1 @ [channel_name],
                           channel_ranges :=
                             AList.update channel_name channel_range (channel_ranges s1)\<rparr>))))"

subsection \<open>Unit conversion\<close>

text \<open>
  Modelled from the spec: \<open>mV2adc\<close>, a function of the picosdk package that the repository
  calls and does not contain. The threshold in ADC counts is
  \<open>thresholdMv / rangeMv * maxAdcCount\<close>, rounded, with the range in millivolts looked up by
  its index in the table of supported ranges; indexing past the table raises, as it does in
  any Python expression.
\<close>

definition mV2adc :: "int \<Rightarrow> nat \<Rightarrow> 16 word \<Rightarrow> error + int" where
  "mV2adc millivolts rng maxADC =
     (if rng < length allowed_ranges
      then Inr (py_round (of_int (millivolts * sint maxADC) / of_int (allowed_ranges ! rng)))
      else Inl IndexError)"

text \<open>
  Modelled from the spec: \<open>adc2mV\<close>, of the same package. Every sample of the buffer becomes
  \<open>rawAdcCount * channelRangeMv / maxAdcCount\<close> millivolts; a division by a zero maximum
  raises. \<open>samples_of\<close> reads a buffer as the numbers the conversion iterates over.
\<close>

definition samples_of :: "buffer \<Rightarrow> rat list" where
  "samples_of b = (case b of CArray ws \<Rightarrow> map (\<lambda>w. of_int (sint w)) ws | PyList vs \<Rightarrow> vs)"

definition adc2mV :: "buffer \<Rightarrow> nat \<Rightarrow> 16 word \<Rightarrow> error + rat list" where
  "adc2mV bufferADC rng maxADC =
     (if rng < length allowed_ranges
      then (let vRange = allowed_ranges ! rng; xs = samples_of bufferADC
            in if xs = [] then Inr []
               else if sint maxADC = 0 then Inl ZeroDivisionError
               else Inr (map (\<lambda>x. (x * of_int vRange) / of_int (sint maxADC)) xs))
      else Inl IndexError)"

subsection \<open>Trigger configuration\<close>

definition convert_trigger_units :: "picoscope \<Rightarrow> channel \<Rightarrow> int \<Rightarrow> error + int" where
  "convert_trigger_units s source_channel_name trigger_threshold_mv =
     (case map_of (channel_ranges s) source_channel_name of
        None \<Rightarrow> Inl SystemExit
      | Some source_channel_range \<Rightarrow>
          if \<not> source_channel_range < length allowed_ranges then Inl IndexError
          else if allowed_ranges ! source_channel_range \<le> trigger_threshold_mv
          then Inl SystemExit
          else mV2adc trigger_threshold_mv source_channel_range (max_ADC s))"

definition setup_trigger ::
  "driver \<Rightarrow> picoscope \<Rightarrow> channel \<Rightarrow> int \<Rightarrow> int \<Rightarrow> int \<Rightarrow> int \<Rightarrow> (error + unit) \<times> picoscope" where
  "setup_trigger drv s source_channel_name trigger_threshold_mv trigger_direction
       trigger_delay auto_trigger =
     (case convert_trigger_units s source_channel_name trigger_threshold_mv of
        Inl e \<Rightarrow> (Inl e, s)
      | Inr trigger_threshold \<Rightarrow>
          (case PS4000A_CHANNEL source_channel_name of
             None \<Rightarrow> (Inl KeyError, s)
           | Some ch \<Rightarrow>
               (let (r, s1) = invoke drv (SetSimpleTrigger ch trigger_threshold
                                trigger_direction trigger_delay auto_trigger) s
                in (assert_pico_ok (status r), s1))))"

subsection \<open>Block planning\<close>

text \<open>
  The upper end of the validity window is the source's \<open>2e32 - 1\<close>: the double next to two
  times ten to the power 32, less the float one, rounded again.
\<close>

definition timebase_bound :: pyfloat where
  "timebase_bound =
     (case to_double (2 * 10 ^ 32) of Finite d \<Rightarrow> to_double (d - 1) | x \<Rightarrow> x)"

text \<open>
  \<open>convert_timebase\<close> computes the rate and the code in float arithmetic, so every step can
  raise as Python does. Both notices it prints format \<open>(block_size-1)\<close> divided by a float,
  which raises \<open>OverflowError\<close> for a block size beyond the double range.
\<close>

definition convert_timebase :: "int \<Rightarrow> number \<Rightarrow> error + int" where
  "convert_timebase block_sz block_duration =
     (case true_div (block_sz - 1) block_duration of
        Inl e \<Rightarrow> Inl e
      | Inr sampling_rate \<Rightarrow>
          (case float_div (Finite 400000000) sampling_rate of
             Inl e \<Rightarrow> Inl e
           | Inr ratio \<Rightarrow>
               (case py_floor (PyFloat ratio) of
                  Inl e \<Rightarrow> Inl e
                | Inr fl \<Rightarrow>
                    (let tb = fl - 1
                     in case int_to_float (block_sz - 1) of
                          Inl e \<Rightarrow> Inl e
                        | Inr shown \<Rightarrow>
                            if 0 \<le> tb \<and> int_le_float tb timebase_bound
                            then Inr tb else Inr 3999))))"

definition setup_block ::
  "driver \<Rightarrow> picoscope \<Rightarrow> int \<Rightarrow> number \<Rightarrow> number \<Rightarrow> (error + unit) \<times> picoscope" where
  "setup_block drv s block_sz block_duration pre_trigger_percent =
     (case convert_timebase block_sz block_duration of
        Inl e \<Rightarrow> (Inl e, s)
      | Inr tb \<Rightarrow>
          (let s1 = s\<lparr>timebase := Some tb, block_size := Some block_sz\<rparr>
           in case int_mul block_sz pre_trigger_percent of
                Inl e \<Rightarrow> (Inl e, s1)
              | Inr product \<Rightarrow>
                  (case py_floor product of
                     Inl e \<Rightarrow> (Inl e, s1)
                   | Inr pre \<Rightarrow>
                       (let s2 = s1\<lparr>pre_trigger_samples := Some pre,
                                      post_trigger_samples := Some (block_sz - pre)\<rparr>;
                            (r, s3) = invoke drv (GetTimebase2 tb block_sz) s2
                        in (assert_pico_ok (status r), s3)))))"

subsection \<open>Running a block\<close>

text \<open>
  The loop over \<open>active_channels\<close> carries the local variable \<open>status\<close>, unbound until the
  first iteration has assigned it; \<open>assert_pico_ok(status)\<close> stands after the loop.
\<close>

fun run_block_loop ::
  "driver \<Rightarrow> channel list \<Rightarrow> nat option \<Rightarrow> picoscope \<Rightarrow> (error + nat option) \<times> picoscope" where
  "run_block_loop drv [] st s = (Inr st, s)"
| "run_block_loop drv (channel # rest) st s =
     (case block_size s of
        None \<Rightarrow> (Inl AttributeError, s)
      | Some n \<Rightarrow>
          if n < 0 then (Inl ValueError, s)
          else (let s1 = s\<lparr>buffers :=
                            AList.update channel (CArray (replicate (nat n) 0)) (buffers s)\<rparr>
                in case PS4000A_CHANNEL channel of
                     None \<Rightarrow> (Inl KeyError, s1)
                   | Some ch \<Rightarrow>
                       (let (r, s2) = invoke drv (SetDataBuffers ch n) s1
                        in run_block_loop drv rest (Some (status r)) s2)))"

definition run_block :: "driver \<Rightarrow> picoscope \<Rightarrow> (error + unit) \<times> picoscope" where
  "run_block drv s =
     (case run_block_loop drv (active_channels s) None s of
        (Inl e, s1) \<Rightarrow> (Inl e, s1)
      | (Inr None, s1) \<Rightarrow> (Inl UnboundLocalError, s1)
      | (Inr (Some st), s1) \<Rightarrow>
          (case assert_pico_ok st of
             Inl e \<Rightarrow> (Inl e, s1)
           | Inr _ \<Rightarrow>
               (case (pre_trigger_samples s1, post_trigger_samples s1, timebase s1) of
                  (Some pre, Some post, Some tb) \<Rightarrow>
                    (let (r, s2) = invoke drv (RunBlock pre post tb) s1
                     in (assert_pico_ok (status r), s2))
                | _ \<Rightarrow> (Inl AttributeError, s1))))"

subsection \<open>Collecting a block\<close>

text \<open>
  The readiness loop \<open>while ready.value == check.value\<close> has no bound of its own: it runs for
  as long as the driver leaves \<open>ready\<close> at zero. The model gives it fuel, one unit a poll, and
  returns \<open>None\<close> when the fuel runs out before the driver reports a captured block.
\<close>

fun wait_ready :: "nat \<Rightarrow> driver \<Rightarrow> picoscope \<Rightarrow> picoscope option" where
  "wait_ready 0 drv s = None"
| "wait_ready (Suc fuel) drv s =
     (let (r, s1) = invoke drv IsReady s
      in if out_value r = 0 then wait_ready fuel drv s1 else Some s1)"

text \<open>
  \<open>ps4000aGetValues\<close> fills the arrays registered with the driver, each up to its length.
\<close>

definition store_samples ::
  "(channel \<Rightarrow> 16 word list) \<Rightarrow> (channel \<times> buffer) list \<Rightarrow> (channel \<times> buffer) list" where
  "store_samples f bs =
     map (\<lambda>(c, b). (c, case b of
                          CArray old \<Rightarrow> CArray (take (length old) (f c) @ drop (length (f c)) old)
                        | PyList vs \<Rightarrow> PyList vs)) bs"

fun convert_ADC_units ::
  "picoscope \<Rightarrow> (channel \<times> buffer) list \<Rightarrow> error + (channel \<times> buffer) list" where
  "convert_ADC_units s [] = Inr []"
| "convert_ADC_units s ((chl, b) # rest) =
     (case map_of (channel_ranges s) chl of
        None \<Rightarrow> Inl KeyError
      | Some rng \<Rightarrow>
          (case adc2mV b rng (max_ADC s) of
             Inl e \<Rightarrow> Inl e
           | Inr vs \<Rightarrow>
               (case convert_ADC_units s rest of
                  Inl e \<Rightarrow> Inl e
                | Inr out \<Rightarrow> Inr ((chl, PyList vs) # out))))"

definition get_block_traces ::
  "nat \<Rightarrow> driver \<Rightarrow> picoscope \<Rightarrow> ((error + (channel \<times> buffer) list) \<times> picoscope) option" where
  "get_block_traces fuel drv s =
     (case wait_ready fuel drv s of
        None \<Rightarrow> None
      | Some s1 \<Rightarrow>
          Some (case block_size s1 of
                  None \<Rightarrow> (Inl AttributeError, s1)
                | Some n \<Rightarrow>
                    (let (r, s2) = invoke drv (GetValues n) s1;
                         s3 = s2\<lparr>buffers := store_samples (out_samples r) (buffers s2)\<rparr>
                     in case assert_pico_ok (status r) of
                          Inl e \<Rightarrow> (Inl e, s3)
                        | Inr _ \<Rightarrow>
                            (case convert_ADC_units s3 (buffers s3) of
                               Inl e \<Rightarrow> (Inl e, s3)
                             | Inr bs \<Rightarrow> (Inr bs, s3\<lparr>buffers := bs\<rparr>)))))"

section \<open>The streaming class\<close>

text \<open>
  The attribute \<open>complete_buffers\<close> holds one \<open>int16\<close> array a channel while a stream is
  collected, and is rebound to the converted lists at the end; the record keeps the two as
  \<open>complete_buffers\<close> and \<open>complete_buffers_mV\<close>. \<open>nextSample\<close>, \<open>autoStopOuter\<close> and
  \<open>wasCalledBack\<close> are the attributes of the same names with a leading underscore. Sample
  counts and start indices that the driver passes to the callback are natural numbers.
\<close>

record picoscope_stream =
  intermediate_buffers :: "(channel \<times> 16 word list) list"
  complete_buffers :: "(channel \<times> 16 word list) list"
  complete_buffers_mV :: "(channel \<times> rat list) list"
  stream_channel_ranges :: "(channel \<times> nat) list"
  buffer_len :: nat
  num_buffers :: nat
  total_buffer_len :: nat
  nextSample :: nat
  autoStopOuter :: bool
  wasCalledBack :: bool
  stream_trace :: "event list"

text \<open>
  A numpy slice \<open>xs[a:b]\<close> with non-negative bounds is clipped to the array. Assigning to a
  slice needs a value of the slice's own length, or of length one (which is broadcast), and
  raises \<open>ValueError\<close> otherwise.
\<close>

definition slice :: "'a list \<Rightarrow> nat \<Rightarrow> nat \<Rightarrow> 'a list" where
  "slice xs a b = take (b - a) (drop a xs)"

definition assign_slice :: "'a list \<Rightarrow> nat \<Rightarrow> nat \<Rightarrow> 'a list \<Rightarrow> error + 'a list" where
  "assign_slice dst a b src =
     (let n = length (slice dst a b)
      in if length src = n then Inr (take a dst @ src @ drop (a + n) dst)
         else if length src = 1 then Inr (take a dst @ replicate n (hd src) @ drop (a + n) dst)
         else Inl ValueError)"

fun copy_segment ::
  "(channel \<times> 16 word list) list \<Rightarrow> nat \<Rightarrow> nat \<Rightarrow> nat \<Rightarrow> nat \<Rightarrow>
   (channel \<times> 16 word list) list \<Rightarrow> error option \<times> (channel \<times> 16 word list) list" where
  "copy_segment ibufs nxt destEnd startIndex sourceEnd [] = (None, [])"
| "copy_segment ibufs nxt destEnd startIndex sourceEnd ((chl, buf) # rest) =
     (case map_of ibufs chl of
        None \<Rightarrow> (Some KeyError, (chl, buf) # rest)
      | Some src \<Rightarrow>
          (case assign_slice buf nxt destEnd (slice src startIndex sourceEnd) of
             Inl e \<Rightarrow> (Some e, (chl, buf) # rest)
           | Inr buf' \<Rightarrow>
               (let (e, rest') = copy_segment ibufs nxt destEnd startIndex sourceEnd rest
                in (e, (chl, buf') # rest'))))"

definition streaming_callback ::
  "picoscope_stream \<Rightarrow> nat \<Rightarrow> nat \<Rightarrow> bool \<Rightarrow> (error + unit) \<times> picoscope_stream" where
  "streaming_callback s noOfSamples startIndex autoStop =
     (let s1 = s\<lparr>wasCalledBack := True\<rparr>;
          destEnd = nextSample s1 + noOfSamples;
          sourceEnd = startIndex + noOfSamples;
          (e, bufs) = copy_segment (intermediate_buffers s1) (nextSample s1) destEnd
                        startIndex sourceEnd (complete_buffers s1);
          s2 = s1\<lparr>complete_buffers := bufs\<rparr>
      in case e of
           Some err \<Rightarrow> (Inl err, s2)
         | None \<Rightarrow>
             (let s3 = s2\<lparr>nextSample := nextSample s2 + noOfSamples\<rparr>
              in (Inr (), if autoStop then s3\<lparr>autoStopOuter := True\<rparr> else s3)))"

text \<open>
  \<open>ps4000aGetStreamingLatestValues\<close>: when data is ready the driver has refreshed the
  intermediate buffers it was given and calls the callback; an exception raised inside a
  \<open>ctypes\<close> callback is reported on the console and does not reach the caller. The status
  the call returns is not looked at.
\<close>

definition driver_write ::
  "(channel \<Rightarrow> 16 word list) \<Rightarrow> (channel \<times> 16 word list) list \<Rightarrow> (channel \<times> 16 word list) list" where
  "driver_write f bs =
     map (\<lambda>(c, old). (c, take (length old) (f c) @ drop (length (f c)) old)) bs"

definition get_latest_values :: "driver \<Rightarrow> picoscope_stream \<Rightarrow> picoscope_stream" where
  "get_latest_values drv s =
     (let r = drv (stream_trace s) GetStreamingLatestValues;
          s1 = s\<lparr>stream_trace := stream_trace s @ [Call GetStreamingLatestValues]\<rparr>
      in case out_segment r of
           None \<Rightarrow> s1
         | Some (noOfSamples, startIndex, autoStop) \<Rightarrow>
             (let s2 = s1\<lparr>intermediate_buffers :=
                            driver_write (out_samples r) (intermediate_buffers s1),
                          stream_trace :=
                            stream_trace s1 @ [Callback noOfSamples startIndex autoStop]\<rparr>
              in snd (streaming_callback s2 noOfSamples startIndex autoStop)))"

definition stream_step :: "driver \<Rightarrow> picoscope_stream \<Rightarrow> picoscope_stream" where
  "stream_step drv s =
     (let s1 = get_latest_values drv (s\<lparr>wasCalledBack := False\<rparr>)
      in if \<not> wasCalledBack s1 then s1\<lparr>stream_trace := stream_trace s1 @ [Sleep]\<rparr> else s1)"

text \<open>
  The collection loop ends when the destination is full or the driver has signalled
  auto-stop, and not before: fuel bounds the number of polls, and \<open>None\<close> is a loop still
  running when the fuel is spent.
\<close>

fun stream_loop :: "nat \<Rightarrow> driver \<Rightarrow> picoscope_stream \<Rightarrow> picoscope_stream option" where
  "stream_loop 0 drv s =
     (if nextSample s < total_buffer_len s \<and> \<not> autoStopOuter s then None else Some s)"
| "stream_loop (Suc fuel) drv s =
     (if nextSample s < total_buffer_len s \<and> \<not> autoStopOuter s
      then stream_loop fuel drv (stream_step drv s) else Some s)"

fun convert_stream_units ::
  "picoscope_stream \<Rightarrow> 16 word \<Rightarrow> (channel \<times> 16 word list) list \<Rightarrow>
   error + (channel \<times> rat list) list" where
  "convert_stream_units s maxADC [] = Inr []"
| "convert_stream_units s maxADC ((chl, b) # rest) =
     (case map_of (stream_channel_ranges s) chl of
        None \<Rightarrow> Inl KeyError
      | Some rng \<Rightarrow>
          (case adc2mV (CArray b) rng maxADC of
             Inl e \<Rightarrow> Inl e
           | Inr vs \<Rightarrow>
               (case convert_stream_units s maxADC rest of
                  Inl e \<Rightarrow> Inl e
                | Inr out \<Rightarrow> Inr ((chl, vs) # out))))"

definition stream_traces ::
  "nat \<Rightarrow> driver \<Rightarrow> picoscope_stream \<Rightarrow>
   ((error + (channel \<times> rat list) list) \<times> picoscope_stream) option" where
  "stream_traces fuel drv s =
     (let s0 = s\<lparr>complete_buffers :=
                   map (\<lambda>(key, b). (key, replicate (total_buffer_len s) 0))
                     (intermediate_buffers s),
                 nextSample := 0, autoStopOuter := False, wasCalledBack := False\<rparr>
      in case stream_loop fuel drv s0 of
           None \<Rightarrow> None
         | Some s1 \<Rightarrow>
             (let r = drv (stream_trace s1) MaximumValue;
                  s2 = s1\<lparr>stream_trace := stream_trace s1 @ [Call MaximumValue]\<rparr>
              in Some (case assert_pico_ok (status r) of
                         Inl e \<Rightarrow> (Inl e, s2)
                       | Inr _ \<Rightarrow>
                           (case convert_stream_units s2 (out_value r) (complete_buffers s2) of
                              Inl e \<Rightarrow> (Inl e, s2)
                            | Inr bs \<Rightarrow> (Inr bs, s2\<lparr>complete_buffers_mV := bs\<rparr>)))))"

section \<open>Reading an event history\<close>

text \<open>
  A poll is a readiness check of either mode. A history backs off when no poll is followed
  at once by another poll: between the two there is the data the first one delivered, or a
  sleep.
\<close>

definition is_poll :: "event \<Rightarrow> bool" where
  "is_poll e = (e = Call IsReady \<or> e = Call GetStreamingLatestValues)"

fun backs_off :: "event list \<Rightarrow> bool" where
  "backs_off (e1 # e2 # rest) = (\<not> (is_poll e1 \<and> is_poll e2) \<and> backs_off (e2 # rest))"
| "backs_off [e] = True"
| "backs_off [] = True"

section \<open>Sample drivers and sessions, and the vocabulary of the properties\<close>

text \<open>A driver that accepts every call, reports a maximum ADC count of 32767 and no data.\<close>

definition ok_reply :: reply where
  "ok_reply = \<lparr>status = 0, out_value = 32767, out_samples = (\<lambda>c. []), out_segment = None\<rparr>"

definition ok_driver :: driver where
  "ok_driver h c = ok_reply"

text \<open>
  A session is well configured when every recorded channel has a name of the enumeration and
  a range index inside the table: what \<open>setup_channel\<close> records.
\<close>

definition well_configured :: "picoscope \<Rightarrow> bool" where
  "well_configured s =
     list_all (\<lambda>(c, i). i < length allowed_ranges \<and> PS4000A_CHANNEL c \<noteq> None) (channel_ranges s)"

text \<open>
  \<open>sys.exit()\<close> raises \<open>SystemExit\<close>: the request to leave the interpreter, which the
  wrapper announces with \<open>Program aborted.\<close>
\<close>

definition exits_program :: "error + 'a \<Rightarrow> bool" where
  "exits_program out = (out = Inl SystemExit)"

text \<open>The session of the examples: the device opened, channel B set up at 2000 mV.\<close>

definition session_B :: picoscope where
  "session_B = snd (setup_channel ok_driver (snd (Picoscope_init ok_driver)) ''B'' 0 2000 True)"

text \<open>
  What a copy is expected to do: \<open>segment\<close> is the part of a channel's intermediate buffer
  that a callback was told about, \<open>place\<close> writes a segment into a buffer at a position and
  leaves the rest, and a segment fits when it lies inside every intermediate buffer and
  behind the cursor of every destination buffer.
\<close>

definition segment :: "(channel \<times> 16 word list) list \<Rightarrow> channel \<Rightarrow> nat \<Rightarrow> nat \<Rightarrow> 16 word list" where
  "segment ibufs chl start n =
     (case map_of ibufs chl of None \<Rightarrow> [] | Some src \<Rightarrow> slice src start (start + n))"

definition place :: "'a list \<Rightarrow> nat \<Rightarrow> 'a list \<Rightarrow> 'a list" where
  "place buf pos seg = take pos buf @ seg @ drop (pos + length seg) buf"

definition segment_fits :: "picoscope_stream \<Rightarrow> nat \<Rightarrow> nat \<Rightarrow> bool" where
  "segment_fits s n start =
     list_all (\<lambda>(chl, buf). case map_of (intermediate_buffers s) chl of
                               None \<Rightarrow> False
                             | Some src \<Rightarrow> nextSample s + n \<le> length buf \<and> start + n \<le> length src)
       (complete_buffers s)"

text \<open>
  A run of the collection loop, as the driver's answers to the successive polls: nothing,
  or a segment given by its sample count, its start index and the auto-stop flag. The
  driver \<open>answers\<close> a run when those are its replies along the history the run produces. The
  run fits when the loop is still going at each of its polls and has ended after the last,
  and every segment lies inside the intermediate buffers and behind the cursor in the
  destination. \<open>counted\<close> is the number of samples the run delivers, and \<open>laid_out\<close> the
  samples a channel's destination is expected to hold: the segments in the order of their
  delivery, each read where the callback was told, after the driver's write.
\<close>

fun answers :: "driver \<Rightarrow> event list \<Rightarrow> (nat \<times> nat \<times> bool) option list \<Rightarrow> bool" where
  "answers drv h [] = True"
| "answers drv h (None # rest) =
     (out_segment (drv h GetStreamingLatestValues) = None \<and>
      answers drv (h @ [Call GetStreamingLatestValues, Sleep]) rest)"
| "answers drv h (Some (n, start, stop) # rest) =
     (out_segment (drv h GetStreamingLatestValues) = Some (n, start, stop) \<and>
      answers drv (h @ [Call GetStreamingLatestValues, Callback n start stop]) rest)"

fun run_fits ::
  "(channel \<times> 16 word list) list \<Rightarrow> nat \<Rightarrow> nat \<Rightarrow> bool \<Rightarrow> (nat \<times> nat \<times> bool) option list \<Rightarrow> bool" where
  "run_fits ibufs dest_len cur stopped [] = (\<not> (cur < dest_len \<and> \<not> stopped))"
| "run_fits ibufs dest_len cur stopped (None # rest) =
     (cur < dest_len \<and> \<not> stopped \<and> run_fits ibufs dest_len cur stopped rest)"
| "run_fits ibufs dest_len cur stopped (Some (n, start, stop) # rest) =
     (cur < dest_len \<and> \<not> stopped \<and> cur + n \<le> dest_len \<and>
      list_all (\<lambda>(chl, b). start + n \<le> length b) ibufs \<and>
      run_fits ibufs dest_len (cur + n) stop rest)"

fun counted :: "(nat \<times> nat \<times> bool) option list \<Rightarrow> nat" where
  "counted [] = 0"
| "counted (None # rest) = counted rest"
| "counted (Some (n, start, stop) # rest) = n + counted rest"

fun laid_out ::
  "driver \<Rightarrow> event list \<Rightarrow> (channel \<times> 16 word list) list \<Rightarrow>
   (nat \<times> nat \<times> bool) option list \<Rightarrow> channel \<Rightarrow> 16 word list" where
  "laid_out drv h ibufs [] chl = []"
| "laid_out drv h ibufs (None # rest) chl =
     laid_out drv (h @ [Call GetStreamingLatestValues, Sleep]) ibufs rest chl"
| "laid_out drv h ibufs (Some (n, start, stop) # rest) chl =
     (let written = driver_write (out_samples (drv h GetStreamingLatestValues)) ibufs
      in segment written chl start n @
         laid_out drv (h @ [Call GetStreamingLatestValues, Callback n start stop])
           written rest chl)"

text \<open>
  Inside the loop every destination buffer has the full length and belongs to a channel
  that has an intermediate buffer.
\<close>

definition dest_ok :: "picoscope_stream \<Rightarrow> bool" where
  "dest_ok t =
     list_all (\<lambda>(chl, buf). length buf = total_buffer_len t \<and>
                             map_of (intermediate_buffers t) chl \<noteq> None)
       (complete_buffers t)"

text \<open>
  A stream run of two channels as \<open>stream_traces\<close> starts it (default buffer sizes), and a
  driver that delivers 50 samples at index 0 on the first poll and 30 samples at index 50,
  with auto-stop, on the next.
\<close>

definition stream_start :: picoscope_stream where
  "stream_start =
     \<lparr>intermediate_buffers = [(''A'', replicate 512 0), (''B'', replicate 512 0)],
      complete_buffers = [(''A'', replicate 4096 0), (''B'', replicate 4096 0)],
      complete_buffers_mV = [],
      stream_channel_ranges = [(''A'', 9), (''B'', 9)],
      buffer_len = 512, num_buffers = 8, total_buffer_len = 4096,
      nextSample = 0, autoStopOuter = False, wasCalledBack = False, stream_trace = []\<rparr>"

definition two_segments :: driver where
  "two_segments h c =
     (if c = GetStreamingLatestValues
      then (if h = []
            then ok_reply\<lparr>out_segment := Some (50, 0, False),
                           out_samples := (\<lambda>c. replicate 50 1)\<rparr>
            else ok_reply\<lparr>out_segment := Some (30, 50, True),
                           out_samples := (\<lambda>c. replicate 50 1 @ replicate 30 2)\<rparr>)
      else ok_reply)"

text \<open>
  A streaming object on which an earlier run has left its cursor at the end, its auto-stop
  flag set and its destination buffers filled.
\<close>

definition stream_session :: picoscope_stream where
  "stream_session =
     \<lparr>intermediate_buffers = [(''A'', replicate 512 0), (''B'', replicate 512 0)],
      complete_buffers = [(''A'', replicate 4096 7), (''B'', replicate 4096 7)],
      complete_buffers_mV = [],
      stream_channel_ranges = [(''A'', 9), (''B'', 9)],
      buffer_len = 512, num_buffers = 8, total_buffer_len = 4096,
      nextSample = 4096, autoStopOuter = True, wasCalledBack = True, stream_trace = []\<rparr>"



text \<open>
  Sessions of the examples: channels A and B at 2000 mV with a block of two samples planned,
  the same after \<open>run_block\<close>, and a driver that captures a full-scale sample and a zero on
  every channel.
\<close>

definition session_AB :: picoscope where
  "session_AB =
     snd (setup_block ok_driver
       (snd (setup_channel ok_driver
         (snd (setup_channel ok_driver (snd (Picoscope_init ok_driver)) ''A'' 0 2000 True))
         ''B'' 0 2000 True)) 2 (PyInt 1) (PyInt 0))"


definition session_run :: picoscope where
  "session_run = snd (run_block ok_driver session_AB)"

text \<open>
  A driver that rejects the set-data-buffers call for channel A with status 13 and answers
  every readiness poll with status 13 (and a set ready flag).
\<close>

definition rejecting_driver :: driver where
  "rejecting_driver h c =
     (if c = SetDataBuffers 0 2 then ok_reply\<lparr>status := 13\<rparr>
      else if c = IsReady then ok_reply\<lparr>status := 13, out_value := 1\<rparr>
      else ok_reply)"

text \<open>
  The dictionaries of a session are keyed by channel name: every name has one entry in
  \<open>channel_ranges\<close> and at most one buffer, and the names are those of the active channels.
\<close>

definition name_keyed :: "picoscope \<Rightarrow> bool" where
  "name_keyed s =
     (distinct (map fst (channel_ranges s)) \<and>
      set (map fst (channel_ranges s)) = set (active_channels s) \<and>
      distinct (map fst (buffers s)) \<and>
      set (map fst (buffers s)) \<subseteq> set (active_channels s))"



text \<open>
  A streaming history made of rounds: a poll, then the callback or a sleep.
\<close>

definition after_poll :: "event \<Rightarrow> bool" where
  "after_poll e = (case e of Call c \<Rightarrow> False | Callback n i a \<Rightarrow> True | Sleep \<Rightarrow> True)"

fun poll_rounds :: "event list \<Rightarrow> bool" where
  "poll_rounds (e1 # e2 # rest) =
     (e1 = Call GetStreamingLatestValues \<and> after_poll e2 \<and> poll_rounds rest)"
| "poll_rounds [e] = False"
| "poll_rounds [] = True"

text \<open>
  A driver that is not ready at the first readiness poll, and one that has no stream data
  at the first poll and then delivers 30 samples with auto-stop.
\<close>

definition slow_driver :: driver where
  "slow_driver h c =
     (if c = IsReady \<and> Call IsReady \<notin> set h then ok_reply\<lparr>out_value := 0\<rparr> else ok_reply)"

definition late_driver :: driver where
  "late_driver h c =
     (if c = GetStreamingLatestValues \<and> h \<noteq> []
      then ok_reply\<lparr>out_segment := Some (30, 0, True), out_samples := (\<lambda>c. replicate 30 1)\<rparr>
      else ok_reply)"

section \<open>Range coercion\<close>

lemma find_allowed:
  "List.find (\<lambda>x. a \<le> x) allowed_ranges =
     (if a \<le> 10 then Some 10 else if a \<le> 20 then Some 20 else if a \<le> 50 then Some 50
      else if a \<le> 100 then Some 100 else if a \<le> 200 then Some 200 else if a \<le> 500 then Some 500
      else if a \<le> 1000 then Some 1000 else if a \<le> 2000 then Some 2000
      else if a \<le> 5000 then Some 5000 else if a \<le> 10000 then Some 10000
      else if a \<le> 20000 then Some 20000 else if a \<le> 50000 then Some 50000 else None)"
  by (simp add: allowed_ranges_def)

lemma coerce_channel_range_cases:
  "coerce_channel_range r =
     Inr (if \<bar>r\<bar> \<le> 10 then 0 else if \<bar>r\<bar> \<le> 20 then 1 else if \<bar>r\<bar> \<le> 50 then 2
      else if \<bar>r\<bar> \<le> 100 then 3 else if \<bar>r\<bar> \<le> 200 then 4 else if \<bar>r\<bar> \<le> 500 then 5
      else if \<bar>r\<bar> \<le> 1000 then 6 else if \<bar>r\<bar> \<le> 2000 then 7
      else if \<bar>r\<bar> \<le> 5000 then 8 else if \<bar>r\<bar> \<le> 10000 then 9
      else if \<bar>r\<bar> \<le> 20000 then 10 else 11)"
  unfolding coerce_channel_range_def find_allowed Let_def
  by (simp add: allowed_ranges_def)

lemma allowed_nth:
  "allowed_ranges ! 0 = 10" "allowed_ranges ! 1 = 20" "allowed_ranges ! 2 = 50"
  "allowed_ranges ! 3 = 100" "allowed_ranges ! 4 = 200" "allowed_ranges ! 5 = 500"
  "allowed_ranges ! 6 = 1000" "allowed_ranges ! 7 = 2000" "allowed_ranges ! 8 = 5000"
  "allowed_ranges ! 9 = 10000" "allowed_ranges ! 10 = 20000" "allowed_ranges ! 11 = 50000"
  "length allowed_ranges = 12"
  by (simp_all add: allowed_ranges_def)

lemma coerce_channel_range_smallest:
  "\<exists>i. coerce_channel_range r = Inr i \<and> i < length allowed_ranges \<and>
       (if \<bar>r\<bar> \<le> 50000
        then \<bar>r\<bar> \<le> allowed_ranges ! i \<and>
             (\<forall>x \<in> set allowed_ranges. \<bar>r\<bar> \<le> x \<longrightarrow> allowed_ranges ! i \<le> x)
        else allowed_ranges ! i = 50000)"
  unfolding coerce_channel_range_cases
  by (simp add: allowed_nth) (simp add: allowed_ranges_def)

lemma setup_channel_Inr:
  assumes "coerce_channel_range r = Inr i" "PS4000A_CHANNEL name = Some ch"
  shows "trace (snd (setup_channel drv s name off r dc)) = trace s @ [Call (SetChannel ch dc i off)]"
    and "status (drv (trace s) (SetChannel ch dc i off)) = 0 \<Longrightarrow>
         fst (setup_channel drv s name off r dc) = Inr () \<and>
         map_of (channel_ranges (snd (setup_channel drv s name off r dc))) name = Some i"
  using assms
  by (simp_all add: setup_channel_def invoke_def assert_pico_ok_def update_Some_unfold)

text \<open>
  C1. For every requested range \<open>r\<close> in millivolts, negative ones included, \<open>setup_channel\<close>
  resolves the channel to an index \<open>i\<close> of the table of supported ranges: the entry at \<open>i\<close>
  is the smallest supported range that is at least \<open>\<bar>r\<bar>\<close>, or 50000 mV when \<open>\<bar>r\<bar>\<close> exceeds
  every supported range. That index is what is passed to the driver for a channel name of
  the enumeration and, once the driver has accepted the call, what the session records for
  the channel.
\<close>

theorem setup_channel_resolves_range:
  "\<exists>i. coerce_channel_range r = Inr i \<and> i < length allowed_ranges \<and>
       (if \<bar>r\<bar> \<le> 50000
        then \<bar>r\<bar> \<le> allowed_ranges ! i \<and>
             (\<forall>x \<in> set allowed_ranges. \<bar>r\<bar> \<le> x \<longrightarrow> allowed_ranges ! i \<le> x)
        else allowed_ranges ! i = 50000) \<and>
       (\<forall>ch. PS4000A_CHANNEL name = Some ch \<longrightarrow>
          trace (snd (setup_channel drv s name off r dc)) =
            trace s @ [Call (SetChannel ch dc i off)] \<and>
          (status (drv (trace s) (SetChannel ch dc i off)) = 0 \<longrightarrow>
             fst (setup_channel drv s name off r dc) = Inr () \<and>
             map_of (channel_ranges (snd (setup_channel drv s name off r dc))) name = Some i))"
proof -
  obtain i where i: "coerce_channel_range r = Inr i" "i < length allowed_ranges"
    "if \<bar>r\<bar> \<le> 50000
        then \<bar>r\<bar> \<le> allowed_ranges ! i \<and>
             (\<forall>x \<in> set allowed_ranges. \<bar>r\<bar> \<le> x \<longrightarrow> allowed_ranges ! i \<le> x)
        else allowed_ranges ! i = 50000"
    using coerce_channel_range_smallest [of r] by blast
  show ?thesis
    using i setup_channel_Inr [OF i(1)] by blast
qed

theorem setup_channel_resolves_range_witness:
  "coerce_channel_range (- 1500) = Inr 7 \<and> allowed_ranges ! 7 = 2000 \<and>
   fst (setup_channel ok_driver new_picoscope ''A'' 0 (- 1500) True) = Inr () \<and>
   map_of (channel_ranges (snd (setup_channel ok_driver new_picoscope ''A'' 0 (- 1500) True))) ''A''
     = Some 7"
proof -
  have c: "coerce_channel_range (- 1500) = Inr 7"
    by (simp add: coerce_channel_range_cases)
  have ch: "PS4000A_CHANNEL ''A'' = Some 0"
    by (simp add: PS4000A_CHANNEL_def)
  have st: "status (ok_driver (trace new_picoscope) (SetChannel 0 True 7 0)) = 0"
    by (simp add: ok_driver_def ok_reply_def)
  from setup_channel_resolves_range [of "- 1500" "''A''" ok_driver new_picoscope 0 True]
  obtain i where i: "coerce_channel_range (- 1500) = Inr i"
    and r: "\<forall>ch. PS4000A_CHANNEL ''A'' = Some ch \<longrightarrow>
          trace (snd (setup_channel ok_driver new_picoscope ''A'' 0 (- 1500) True)) =
            trace new_picoscope @ [Call (SetChannel ch True i 0)] \<and>
          (status (ok_driver (trace new_picoscope) (SetChannel ch True i 0)) = 0 \<longrightarrow>
             fst (setup_channel ok_driver new_picoscope ''A'' 0 (- 1500) True) = Inr () \<and>
             map_of (channel_ranges
               (snd (setup_channel ok_driver new_picoscope ''A'' 0 (- 1500) True))) ''A'' = Some i)"
    by blast
  from i c have "i = 7" by simp
  with r ch st show ?thesis
    by (simp add: c allowed_nth)
qed

section \<open>Rounding\<close>

lemma py_round_ge: "of_int k \<le> x \<Longrightarrow> k \<le> py_round x"
proof -
  assume "of_int k \<le> x"
  then have "k \<le> \<lfloor>x\<rfloor>" by (simp add: le_floor_iff)
  then show ?thesis by (simp add: py_round_def Let_def)
qed

lemma py_round_le: "x \<le> of_int k \<Longrightarrow> py_round x \<le> k"
proof -
  assume a: "x \<le> of_int k"
  show ?thesis
  proof (cases "x = of_int k")
    case True
    then show ?thesis by (simp add: py_round_def Let_def)
  next
    case False
    with a have "x < of_int k" by simp
    then have "\<lfloor>x\<rfloor> < k" by (simp add: floor_less_iff)
    then show ?thesis by (simp add: py_round_def Let_def)
  qed
qed

lemma py_round_less: "x < of_int k - 1 / 2 \<Longrightarrow> py_round x < k"
proof -
  assume a: "x < of_int k - 1 / 2"
  define f where "f = \<lfloor>x\<rfloor>"
  have fx: "of_int f \<le> x" "x < of_int f + 1" unfolding f_def by linarith+
  have "of_int f < (of_int k :: rat)" using a fx by linarith
  then have fk: "f < k" by simp
  show ?thesis
  proof (cases "x - of_int f < 1 / 2")
    case True
    then show ?thesis using fk by (simp add: py_round_def Let_def f_def)
  next
    case False
    then have "of_int f + 1 < (of_int k :: rat)" using a by linarith
    then have "of_int (f + 1) < (of_int k :: rat)" by simp
    then have "f + 1 < k" unfolding of_int_less_iff .
    then show ?thesis by (simp add: py_round_def Let_def f_def)
  qed
qed

lemma allowed_pos: "i < length allowed_ranges \<Longrightarrow> 0 < allowed_ranges ! i"
  by (auto simp: allowed_ranges_def nth_Cons' )

lemma py_round_of_int_div:
  assumes "0 < d"
  shows "py_round (of_int n / of_int d) =
     (let q = n div d; r = n mod d
      in if 2 * r < d then q else if d < 2 * r then q + 1
         else if even q then q else q + 1)"
proof -
  have fl: "\<lfloor>(of_int n / of_int d :: rat)\<rfloor> = n div d"
    by (simp add: floor_divide_of_int_eq)
  have "(of_int n :: rat) = of_int (n div d) * of_int d + of_int (n mod d)"
    by (metis of_int_add of_int_mult div_mult_mod_eq)
  then have fr: "(of_int n / of_int d :: rat) - of_int (n div d) = of_int (n mod d) / of_int d"
    using assms by (simp add: field_simps)
  have lt: "(of_int (n mod d) / of_int d < (1 / 2 :: rat)) = (2 * (n mod d) < d)"
    using assms by (simp add: field_simps) (metis of_int_less_iff of_int_mult of_int_numeral mult.commute)
  have gt: "((1 / 2 :: rat) < of_int (n mod d) / of_int d) = (d < 2 * (n mod d))"
    using assms by (simp add: field_simps) (metis of_int_less_iff of_int_mult of_int_numeral mult.commute)
  show ?thesis
    unfolding py_round_def Let_def fl fr lt gt by simp
qed

section \<open>Trigger configuration\<close>

lemma coerce_2000: "coerce_channel_range 2000 = Inr 7"
  by (simp add: coerce_channel_range_def allowed_ranges_def)

lemma session_B_fields:
  "channel_ranges session_B = [(''B'', 7)]" "max_ADC session_B = 32767"
  "active_channels session_B = [''B'']"
  "trace session_B = [Call OpenUnit, Call MaximumValue, Call (SetChannel 1 True 7 0)]"
  by (simp_all add: session_B_def setup_channel_def coerce_2000 PS4000A_CHANNEL_def
      Picoscope_init_def get_max_ADC_def invoke_def ok_driver_def ok_reply_def
      assert_pico_ok_def new_picoscope_def)

lemma well_configured_lookup:
  "well_configured s \<Longrightarrow> map_of (channel_ranges s) c = Some i \<Longrightarrow>
     i < length allowed_ranges \<and> PS4000A_CHANNEL c \<noteq> None"
  unfolding well_configured_def list_all_iff
  by (auto dest: map_of_SomeD)

lemma list_all_update:
  "list_all P al \<Longrightarrow> P (k, v) \<Longrightarrow> list_all P (AList.update k v al)"
  by (induction al) auto

lemma well_configured_init: "well_configured (snd (Picoscope_init drv))"
  by (auto simp: Picoscope_init_def get_max_ADC_def invoke_def new_picoscope_def
      well_configured_def Let_def split: sum.splits)

lemma well_configured_setup_channel:
  assumes "well_configured s"
  shows "well_configured (snd (setup_channel drv s name off r dc))"
proof -
  obtain i where i: "coerce_channel_range r = Inr i" "i < length allowed_ranges"
    using coerce_channel_range_smallest [of r] by blast
  show ?thesis
    using assms i
    by (auto simp: setup_channel_def invoke_def well_configured_def Let_def
        intro!: list_all_update split: option.splits sum.splits)
qed

lemma convert_trigger_units_Some:
  assumes "map_of (channel_ranges s) src = Some i" "i < length allowed_ranges"
    "t < allowed_ranges ! i"
  shows "convert_trigger_units s src t =
     Inr (py_round (of_int t / of_int (allowed_ranges ! i) * of_int (sint (max_ADC s))))"
  using assms allowed_pos [of i]
  by (simp add: convert_trigger_units_def mV2adc_def)

lemma setup_trigger_call:
  assumes "convert_trigger_units s src t = Inr a" "PS4000A_CHANNEL src = Some ch"
  shows "setup_trigger drv s src t dir dly auto =
     (assert_pico_ok (status (drv (trace s) (SetSimpleTrigger ch a dir dly auto))),
      s\<lparr>trace := trace s @ [Call (SetSimpleTrigger ch a dir dly auto)]\<rparr>)"
  using assms by (simp add: setup_trigger_def invoke_def)

lemma threshold_counts_bounds:
  fixes t R M :: int
  assumes "0 \<le> t" "t < R" "R < 2 * M"
  shows "0 \<le> py_round (of_int t / of_int R * of_int M)"
    and "py_round (of_int t / of_int R * of_int M) < M"
proof -
  have R: "0 < R" and M: "0 < M" using assms by linarith+
  have eq: "(of_int t / of_int R * of_int M :: rat) = of_int (t * M) / of_int R"
    by simp
  have "(0 :: rat) \<le> of_int (t * M) / of_int R"
    using assms R M by simp
  then show "0 \<le> py_round (of_int t / of_int R * of_int M)"
    unfolding eq using py_round_ge [of 0] by simp
  have "t * M \<le> (R - 1) * M" using assms M by (simp add: mult_right_mono)
  then have "(of_int (t * M) :: rat) \<le> of_int ((R - 1) * M)"
    unfolding of_int_le_iff .
  then have "(of_int (t * M) / of_int R :: rat) \<le> of_int ((R - 1) * M) / of_int R"
    using R by (simp add: divide_right_mono)
  also have "\<dots> = of_int M - of_int M / of_int R"
    using R by (simp add: field_simps)
  also have "\<dots> < of_int M - 1 / 2"
  proof -
    have "(of_int R :: rat) < 2 * of_int M"
      using assms(3) by (metis of_int_less_iff of_int_mult of_int_numeral)
    then have "(1 / 2 :: rat) < of_int M / of_int R"
      using R by (simp add: field_simps)
    then show ?thesis by simp
  qed
  finally show "py_round (of_int t / of_int R * of_int M) < M"
    unfolding eq by (rule py_round_less)
qed

text \<open>
  C2, as amended. For a configured source channel with resolved range \<open>R\<close>, every threshold
  \<open>t\<close> with \<open>0 \<le> t < R\<close> is converted to \<open>adcCounts = round(t / R * maxAdc)\<close>, the trigger is
  armed with that value, and \<open>0 \<le> adcCounts < maxAdc\<close>, provided the maximum ADC count is more
  than half the range (as 32767 is for every supported range).
\<close>

theorem setup_trigger_threshold_counts:
  assumes "map_of (channel_ranges s) src = Some i" "i < length allowed_ranges"
    and "PS4000A_CHANNEL src = Some ch"
    and "0 \<le> t" "t < allowed_ranges ! i"
    and "allowed_ranges ! i < 2 * sint (max_ADC s)"
  shows "\<exists>adcCounts.
      adcCounts = py_round (of_int t / of_int (allowed_ranges ! i) * of_int (sint (max_ADC s))) \<and>
      convert_trigger_units s src t = Inr adcCounts \<and>
      trace (snd (setup_trigger drv s src t dir dly auto)) =
        trace s @ [Call (SetSimpleTrigger ch adcCounts dir dly auto)] \<and>
      0 \<le> adcCounts \<and> adcCounts < sint (max_ADC s)"
  using convert_trigger_units_Some [OF assms(1,2,5)]
    setup_trigger_call [OF convert_trigger_units_Some [OF assms(1,2,5)] assms(3)]
    threshold_counts_bounds [OF assms(4,5,6)]
  by simp

lemma py_round_24575: "py_round (of_int 1500 / of_int 2000 * of_int 32767) = 24575"
  by code_simp

lemma py_round_m1638: "py_round (of_int (- 100) / of_int 2000 * of_int 32767) = - 1638"
  using py_round_of_int_div [of 2000 "- 3276700"] by (simp add: Let_def)


lemma allowed_7: "allowed_ranges ! 7 = 2000" "(7::nat) < length allowed_ranges"
  by (simp_all add: allowed_ranges_def)

lemma PS_B: "PS4000A_CHANNEL ''B'' = Some 1" "PS4000A_CHANNEL ''C'' = Some 2"
  by (simp_all add: PS4000A_CHANNEL_def)

theorem setup_trigger_threshold_counts_witness:
  "convert_trigger_units session_B ''B'' 1500 = Inr 24575 \<and>
   trace (snd (setup_trigger ok_driver session_B ''B'' 1500 2 0 0)) =
     trace session_B @ [Call (SetSimpleTrigger 1 24575 2 0 0)] \<and>
   (24575 :: int) < sint (max_ADC session_B)"
proof -
  have h1: "map_of (channel_ranges session_B) ''B'' = Some 7"
    by (simp add: session_B_fields)
  have h4: "(0 :: int) \<le> 1500" by simp
  have h5: "1500 < allowed_ranges ! 7" by (simp add: allowed_7)
  have h6: "allowed_ranges ! 7 < 2 * sint (max_ADC session_B)"
    by (simp add: allowed_7 session_B_fields)
  have v: "py_round (of_int 1500 / of_int (allowed_ranges ! 7) *
             of_int (sint (max_ADC session_B))) = 24575"
    using py_round_24575 by (simp add: allowed_7 session_B_fields)
  from setup_trigger_threshold_counts [OF h1 allowed_7(2) PS_B(1) h4 h5 h6, of ok_driver 2 0 0]
  show ?thesis
    unfolding v by simp
qed

text \<open>
  C2 as stated fails below zero: on channel B at 2000 mV the threshold -100 mV is less than
  the range, passes the check and arms the trigger with -1638 counts.
\<close>

theorem trigger_counts_negative_counterexample:
  "map_of (channel_ranges session_B) ''B'' = Some 7 \<and> - 100 < allowed_ranges ! 7 \<and>
   convert_trigger_units session_B ''B'' (- 100) = Inr (- 1638) \<and>
   setup_trigger ok_driver session_B ''B'' (- 100) 2 0 0 =
     (Inr (), session_B\<lparr>trace := trace session_B @ [Call (SetSimpleTrigger 1 (- 1638) 2 0 0)]\<rparr>)"
proof -
  have h1: "map_of (channel_ranges session_B) ''B'' = Some 7"
    by (simp add: session_B_fields)
  have h5: "- 100 < allowed_ranges ! 7" by (simp add: allowed_7)
  have c: "convert_trigger_units session_B ''B'' (- 100) = Inr (- 1638)"
    using convert_trigger_units_Some [OF h1 allowed_7(2) h5] py_round_m1638
    by (simp add: allowed_7 session_B_fields)
  show ?thesis
    using h1 h5 c setup_trigger_call [OF c PS_B(1), of ok_driver 2 0 0]
    by (simp add: ok_driver_def ok_reply_def assert_pico_ok_def)
qed

lemma setup_trigger_unconfigured:
  "map_of (channel_ranges s) src = None \<Longrightarrow>
     setup_trigger drv s src t dir dly auto = (Inl SystemExit, s)"
  by (simp add: setup_trigger_def convert_trigger_units_def)

lemma setup_trigger_above_range:
  "map_of (channel_ranges s) src = Some i \<Longrightarrow> i < length allowed_ranges \<Longrightarrow>
     allowed_ranges ! i \<le> t \<Longrightarrow>
     setup_trigger drv s src t dir dly auto = (Inl SystemExit, s)"
  by (simp add: setup_trigger_def convert_trigger_units_def)

lemma assert_pico_ok_not_exit: "assert_pico_ok st \<noteq> Inl SystemExit"
  by (simp add: assert_pico_ok_def)

lemma negative_threshold_counts:
  fixes t R M :: int
  assumes "0 < R" "t \<le> - R" "0 \<le> M"
  shows "py_round (of_int t / of_int R * of_int M) \<le> - M"
proof -
  have "(of_int t :: rat) \<le> of_int (- R)"
    using assms(2) unfolding of_int_le_iff .
  then have "(of_int t / of_int R :: rat) \<le> - 1"
    using assms(1) by (simp add: field_simps)
  moreover have "(0 :: rat) \<le> of_int M" using assms(3) by simp
  ultimately have "(of_int t / of_int R * of_int M :: rat) \<le> (- 1) * of_int M"
    by (rule mult_right_mono)
  then have "(of_int t / of_int R * of_int M :: rat) \<le> of_int (- M)" by simp
  then show ?thesis by (rule py_round_le)
qed

text \<open>
  C10. The validation of \<open>setup_trigger\<close> is one-sided. On a well-configured session it ends
  in \<open>SystemExit\<close> exactly when the source channel is unconfigured or the resolved range \<open>R\<close>
  is at most the threshold. Every negative threshold \<open>t\<close> on a configured channel passes, is
  converted to \<open>round(t / R * maxAdc)\<close>, and the set-simple-trigger call is issued with that
  value; for \<open>t \<le> -R\<close> (and a maximum ADC count that is not negative) the value is at most
  \<open>-maxAdc\<close>.
\<close>

theorem setup_trigger_one_sided:
  assumes "well_configured s"
  shows "(fst (setup_trigger drv s src t dir dly auto) = Inl SystemExit) =
           (case map_of (channel_ranges s) src of
              None \<Rightarrow> True
            | Some i \<Rightarrow> allowed_ranges ! i \<le> t) \<and>
         (\<forall>i. map_of (channel_ranges s) src = Some i \<and> t < 0 \<longrightarrow>
            (\<exists>ch adcCounts.
               PS4000A_CHANNEL src = Some ch \<and>
               adcCounts =
                 py_round (of_int t / of_int (allowed_ranges ! i) * of_int (sint (max_ADC s))) \<and>
               setup_trigger drv s src t dir dly auto =
                 (assert_pico_ok (status (drv (trace s) (SetSimpleTrigger ch adcCounts dir dly auto))),
                  s\<lparr>trace := trace s @ [Call (SetSimpleTrigger ch adcCounts dir dly auto)]\<rparr>) \<and>
               (t \<le> - (allowed_ranges ! i) \<and> 0 \<le> sint (max_ADC s) \<longrightarrow>
                  adcCounts \<le> - sint (max_ADC s))))"
proof (intro conjI allI impI)
  show "(fst (setup_trigger drv s src t dir dly auto) = Inl SystemExit) =
           (case map_of (channel_ranges s) src of
              None \<Rightarrow> True
            | Some i \<Rightarrow> allowed_ranges ! i \<le> t)"
  proof (cases "map_of (channel_ranges s) src")
    case None
    then show ?thesis by (simp add: setup_trigger_unconfigured)
  next
    case (Some i)
    with assms have i: "i < length allowed_ranges" and "PS4000A_CHANNEL src \<noteq> None"
      using well_configured_lookup by blast+
    then obtain ch where ch: "PS4000A_CHANNEL src = Some ch" by blast
    show ?thesis
    proof (cases "allowed_ranges ! i \<le> t")
      case True
      then show ?thesis using Some i by (simp add: setup_trigger_above_range)
    next
      case False
      then have "t < allowed_ranges ! i" by simp
      from setup_trigger_call [OF convert_trigger_units_Some [OF Some i this] ch]
      show ?thesis using Some False by (simp add: assert_pico_ok_not_exit)
    qed
  qed
next
  fix i
  assume a: "map_of (channel_ranges s) src = Some i \<and> t < 0"
  with assms have i: "i < length allowed_ranges" and "PS4000A_CHANNEL src \<noteq> None"
    using well_configured_lookup by blast+
  then obtain ch where ch: "PS4000A_CHANNEL src = Some ch" by blast
  have R: "0 < allowed_ranges ! i" using i by (rule allowed_pos)
  with a have lt: "t < allowed_ranges ! i" by simp
  from a have m: "map_of (channel_ranges s) src = Some i" by simp
  show "\<exists>ch adcCounts.
               PS4000A_CHANNEL src = Some ch \<and>
               adcCounts =
                 py_round (of_int t / of_int (allowed_ranges ! i) * of_int (sint (max_ADC s))) \<and>
               setup_trigger drv s src t dir dly auto =
                 (assert_pico_ok (status (drv (trace s) (SetSimpleTrigger ch adcCounts dir dly auto))),
                  s\<lparr>trace := trace s @ [Call (SetSimpleTrigger ch adcCounts dir dly auto)]\<rparr>) \<and>
               (t \<le> - (allowed_ranges ! i) \<and> 0 \<le> sint (max_ADC s) \<longrightarrow>
                  adcCounts \<le> - sint (max_ADC s))"
    using ch setup_trigger_call [OF convert_trigger_units_Some [OF m i lt] ch]
      negative_threshold_counts [OF R]
    by blast
qed

lemma well_configured_session_B: "well_configured session_B"
  by (simp add: well_configured_def session_B_fields allowed_ranges_def PS4000A_CHANNEL_def)

lemma py_round_m40959: "py_round (of_int (- 2500) / of_int 2000 * of_int 32767) = - 40959"
  using py_round_of_int_div [of 2000 "- 81917500"] by (simp add: Let_def)

theorem setup_trigger_one_sided_witness:
  "well_configured session_B \<and>
   fst (setup_trigger ok_driver session_B ''B'' (- 2500) 2 0 0) \<noteq> Inl SystemExit \<and>
   setup_trigger ok_driver session_B ''B'' (- 2500) 2 0 0 =
     (Inr (), session_B\<lparr>trace := trace session_B @ [Call (SetSimpleTrigger 1 (- 40959) 2 0 0)]\<rparr>) \<and>
   (- 40959 :: int) \<le> - sint (max_ADC session_B)"
proof -
  have m: "map_of (channel_ranges session_B) ''B'' = Some 7"
    by (simp add: session_B_fields)
  have v: "py_round (of_int (- 2500) / of_int (allowed_ranges ! 7) *
             of_int (sint (max_ADC session_B))) = - 40959"
    using py_round_m40959 by (simp add: allowed_7 session_B_fields)
  note t = setup_trigger_one_sided [OF well_configured_session_B,
      of ok_driver "''B''" "- 2500" 2 0 0]
  from t have a: "fst (setup_trigger ok_driver session_B ''B'' (- 2500) 2 0 0) \<noteq> Inl SystemExit"
    by (simp add: m allowed_7)
  from t m obtain ch adcCounts where
      "PS4000A_CHANNEL ''B'' = Some ch"
      "adcCounts = py_round (of_int (- 2500) / of_int (allowed_ranges ! 7) *
             of_int (sint (max_ADC session_B)))"
      "setup_trigger ok_driver session_B ''B'' (- 2500) 2 0 0 =
         (assert_pico_ok (status (ok_driver (trace session_B)
            (SetSimpleTrigger ch adcCounts 2 0 0))),
          session_B\<lparr>trace := trace session_B @ [Call (SetSimpleTrigger ch adcCounts 2 0 0)]\<rparr>)"
    by force
  then have b: "setup_trigger ok_driver session_B ''B'' (- 2500) 2 0 0 =
     (Inr (), session_B\<lparr>trace := trace session_B @ [Call (SetSimpleTrigger 1 (- 40959) 2 0 0)]\<rparr>)"
    unfolding v using PS_B(1)
    by (simp add: ok_driver_def ok_reply_def assert_pico_ok_def)
  show ?thesis
    using a b well_configured_session_B by (simp add: session_B_fields)
qed

text \<open>
  C5, as amended. Configuring a trigger whose source channel was never configured, or whose
  threshold is at or above the source channel's resolved range, is detected before any
  driver call is issued for the trigger: the session, its event history included, is left as
  it was. The outcome is \<open>SystemExit\<close>, the wrapper's request to end the program.
\<close>

theorem setup_trigger_config_error:
  assumes "well_configured s"
    and "map_of (channel_ranges s) src = None \<or>
         (\<exists>i. map_of (channel_ranges s) src = Some i \<and> allowed_ranges ! i \<le> t)"
  shows "setup_trigger drv s src t dir dly auto = (Inl SystemExit, s) \<and>
         exits_program (fst (setup_trigger drv s src t dir dly auto)) \<and>
         trace (snd (setup_trigger drv s src t dir dly auto)) = trace s"
proof -
  have "setup_trigger drv s src t dir dly auto = (Inl SystemExit, s)"
    using assms(2)
  proof
    assume "map_of (channel_ranges s) src = None"
    then show ?thesis by (rule setup_trigger_unconfigured)
  next
    assume "\<exists>i. map_of (channel_ranges s) src = Some i \<and> allowed_ranges ! i \<le> t"
    then obtain i where i: "map_of (channel_ranges s) src = Some i" "allowed_ranges ! i \<le> t"
      by blast
    with assms(1) have "i < length allowed_ranges"
      using well_configured_lookup by blast
    with i show ?thesis by (simp add: setup_trigger_above_range)
  qed
  then show ?thesis by (simp add: exits_program_def)
qed

theorem setup_trigger_config_error_witness:
  "well_configured session_B \<and> map_of (channel_ranges session_B) ''C'' = None \<and>
   setup_trigger ok_driver session_B ''C'' 100 2 0 0 = (Inl SystemExit, session_B) \<and>
   setup_trigger ok_driver session_B ''B'' 2000 2 0 0 = (Inl SystemExit, session_B)"
proof -
  have n: "map_of (channel_ranges session_B) ''C'' = None"
    by (simp add: session_B_fields)
  have h1: "map_of (channel_ranges session_B) ''C'' = None \<or>
         (\<exists>i. map_of (channel_ranges session_B) ''C'' = Some i \<and> allowed_ranges ! i \<le> 100)"
    using n by simp
  have h2: "map_of (channel_ranges session_B) ''B'' = None \<or>
         (\<exists>i. map_of (channel_ranges session_B) ''B'' = Some i \<and> allowed_ranges ! i \<le> 2000)"
    by (simp add: session_B_fields allowed_7)
  show ?thesis
    using setup_trigger_config_error [OF well_configured_session_B h1, of ok_driver 2 0 0]
      setup_trigger_config_error [OF well_configured_session_B h2, of ok_driver 2 0 0]
      well_configured_session_B n
    by simp
qed

text \<open>
  C5 as stated fails: a trigger on the unconfigured channel C does not return a
  configuration error to the caller, it asks the interpreter to exit.
\<close>

theorem trigger_unconfigured_exits_counterexample:
  "exits_program (fst (setup_trigger ok_driver session_B ''C'' 100 2 0 0)) \<and>
   fst (setup_trigger ok_driver session_B ''C'' 100 2 0 0) = Inl SystemExit"
  by (simp add: exits_program_def setup_trigger_def convert_trigger_units_def session_B_fields)

section \<open>Block planning\<close>

lemma timebase_bound_value: "timebase_bound = Finite 200000000000000010732324408786944"
  by code_simp

lemma convert_timebase_two_samples: "convert_timebase 2 (PyInt 1) = Inr 399999999"
  by code_simp

lemma convert_timebase_float_steps: "convert_timebase 26 (PyInt 11) = Inr 175999998"
  by code_simp

lemma convert_timebase_scenario:
  "convert_timebase 10000 (PyFloat (to_double (1 / 100))) = Inr 399"
  by code_simp

lemma convert_timebase_one_sample: "convert_timebase 1 (PyInt 1) = Inl ZeroDivisionError"
  by code_simp

lemma convert_timebase_beyond_32_bits: "convert_timebase 2 (PyInt 16) = Inr 6399999999"
  by code_simp

lemma floor_of_float_product:
  "int_mul 10 (PyFloat (to_double (3 / 10))) = Inr (PyFloat (Finite 3))"
  by code_simp

text \<open>
  C3. A timebase code outside the device's legal range is to be replaced by the fallback
  code 3999. The driver takes the code as an unsigned 32-bit integer, so the legal codes end
  at \<open>2 ^ 32 - 1\<close>; the window the source checks ends at \<open>2e32 - 1\<close>. For two samples in 16
  seconds the rate is 1/16 sample a second and the code 6399999999: it is beyond
  \<open>2 ^ 32 - 1\<close>, and \<open>setup_block\<close> keeps it and queries the driver with it.
\<close>

theorem setup_block_keeps_code_beyond_32_bits:
  "convert_timebase 2 (PyInt 16) = Inr 6399999999 \<and> (2 ^ 32 - 1 :: int) < 6399999999 \<and>
   setup_block ok_driver session_B 2 (PyInt 16) (PyInt 0) =
     (Inr (),
      session_B\<lparr>timebase := Some 6399999999, block_size := Some 2,
        pre_trigger_samples := Some 0, post_trigger_samples := Some 2,
        trace := trace session_B @ [Call (GetTimebase2 6399999999 2)]\<rparr>)"
  by (simp add: convert_timebase_beyond_32_bits setup_block_def int_mul_def py_floor_def
      invoke_def ok_driver_def ok_reply_def assert_pico_ok_def)

section \<open>Stream collection\<close>

lemma assign_slice_fits:
  assumes "c + n \<le> length buf" "st + n \<le> length src"
  shows "assign_slice buf c (c + n) (slice src st (st + n)) =
           Inr (place buf c (slice src st (st + n)))"
  using assms by (simp add: assign_slice_def slice_def place_def Let_def)

lemma length_segment:
  "map_of ibufs chl = Some src \<Longrightarrow> st + n \<le> length src \<Longrightarrow> length (segment ibufs chl st n) = n"
  by (simp add: segment_def slice_def)

lemma copy_segment_fits:
  assumes "list_all (\<lambda>(chl, buf). case map_of ibufs chl of
                               None \<Rightarrow> False
                             | Some src \<Rightarrow> c + n \<le> length buf \<and> st + n \<le> length src) bufs"
  shows "copy_segment ibufs c (c + n) st (st + n) bufs =
           (None, map (\<lambda>(chl, buf). (chl, place buf c (segment ibufs chl st n))) bufs)"
  using assms
proof (induction bufs)
  case Nil
  then show ?case by simp
next
  case (Cons p bufs)
  obtain chl buf where p: "p = (chl, buf)" by (cases p)
  from Cons.prems p obtain src where src: "map_of ibufs chl = Some src"
    "c + n \<le> length buf" "st + n \<le> length src"
    by (auto split: option.splits)
  from Cons.prems have rest: "list_all (\<lambda>(chl, buf). case map_of ibufs chl of
                               None \<Rightarrow> False
                             | Some src \<Rightarrow> c + n \<le> length buf \<and> st + n \<le> length src) bufs"
    by simp
  show ?case
    using src Cons.IH [OF rest]
    by (simp add: p assign_slice_fits segment_def)
qed

lemma driver_write_map_of:
  "map_of (driver_write f bs) chl =
     map_option (\<lambda>old. take (length old) (f chl) @ drop (length (f chl)) old) (map_of bs chl)"
  unfolding driver_write_def by (induction bs) auto

lemma min_plus_diff: "min a b + (b - a) = (b :: nat)"
  by arith

lemma segment_fits_after_write:
  assumes "segment_fits s n start"
  shows "list_all (\<lambda>(chl, buf). case map_of (driver_write f (intermediate_buffers s)) chl of
                               None \<Rightarrow> False
                             | Some src \<Rightarrow> nextSample s + n \<le> length buf \<and> start + n \<le> length src)
       (complete_buffers s)"
  using assms unfolding segment_fits_def list_all_iff
  by (fastforce simp: driver_write_map_of min_plus_diff split: option.splits)

lemma stream_step_idle:
  assumes "out_segment (drv (stream_trace t) GetStreamingLatestValues) = None"
  shows "stream_step drv t =
     t\<lparr>wasCalledBack := False,
       stream_trace := stream_trace t @ [Call GetStreamingLatestValues, Sleep]\<rparr>"
  using assms by (simp add: stream_step_def get_latest_values_def)

lemma stream_step_segment:
  assumes "out_segment (drv (stream_trace t) GetStreamingLatestValues) = Some (n, start, stop)"
    and "segment_fits t n start"
  shows "stream_step drv t =
     t\<lparr>wasCalledBack := True,
       intermediate_buffers :=
         driver_write (out_samples (drv (stream_trace t) GetStreamingLatestValues))
           (intermediate_buffers t),
       stream_trace := stream_trace t @ [Call GetStreamingLatestValues, Callback n start stop],
       complete_buffers :=
         map (\<lambda>(chl, buf).
                (chl, place buf (nextSample t)
                   (segment (driver_write (out_samples (drv (stream_trace t)
                       GetStreamingLatestValues)) (intermediate_buffers t)) chl start n)))
           (complete_buffers t),
       nextSample := nextSample t + n,
       autoStopOuter := (autoStopOuter t \<or> stop)\<rparr>"
  using assms(1)
    copy_segment_fits [OF segment_fits_after_write [OF assms(2),
      of "out_samples (drv (stream_trace t) GetStreamingLatestValues)"]]
  by (simp add: stream_step_def get_latest_values_def streaming_callback_def Let_def)

lemma take_place:
  "c + length seg \<le> length buf \<Longrightarrow> take (c + length seg) (place buf c seg) = take c buf @ seg"
  by (simp add: place_def)

lemma drop_place:
  "c + length seg \<le> length buf \<Longrightarrow>
     drop (c + length seg + k) (place buf c seg) = drop (c + length seg + k) buf"
  by (simp add: place_def ac_simps)

lemma length_place:
  "c + length seg \<le> length buf \<Longrightarrow> length (place buf c seg) = length buf"
  by (simp add: place_def)

lemma length_driver_write:
  "list_all (\<lambda>(chl, b). k \<le> length b) (driver_write f ibufs) =
   list_all (\<lambda>(chl, b). k \<le> length b) ibufs"
  by (induction ibufs) (auto simp: driver_write_def min_plus_diff)

lemma run_fits_driver_write:
  "run_fits (driver_write f ibufs) dest_len cur stopped polls =
   run_fits ibufs dest_len cur stopped polls"
  by (induction ibufs dest_len cur stopped polls rule: run_fits.induct)
     (simp_all add: length_driver_write)

lemma segment_fits_run:
  assumes "dest_ok t" "nextSample t + n \<le> total_buffer_len t"
    and "list_all (\<lambda>(chl, b). start + n \<le> length b) (intermediate_buffers t)"
  shows "segment_fits t n start"
  unfolding segment_fits_def list_all_iff
proof (intro ballI)
  fix p
  assume p: "p \<in> set (complete_buffers t)"
  obtain chl buf where pe: "p = (chl, buf)" by (cases p)
  from assms(1) p pe have l: "length buf = total_buffer_len t"
    and "map_of (intermediate_buffers t) chl \<noteq> None"
    unfolding dest_ok_def list_all_iff by auto
  then obtain src where src: "map_of (intermediate_buffers t) chl = Some src" by blast
  then have "(chl, src) \<in> set (intermediate_buffers t)" by (rule map_of_SomeD)
  with assms(3) have "start + n \<le> length src"
    unfolding list_all_iff by auto
  with src l assms(2)
  show "case p of (chl, buf) \<Rightarrow>
          (case map_of (intermediate_buffers t) chl of
             None \<Rightarrow> False
           | Some src \<Rightarrow> nextSample t + n \<le> length buf \<and> start + n \<le> length src)"
    by (simp add: pe)
qed

lemma segment_length_run:
  assumes "map_of ibufs chl \<noteq> None"
    and "list_all (\<lambda>(chl, b). start + n \<le> length b) ibufs"
  shows "length (segment (driver_write f ibufs) chl start n) = n"
proof -
  from assms(1) obtain src where src: "map_of ibufs chl = Some src" by blast
  then have "(chl, src) \<in> set ibufs" by (rule map_of_SomeD)
  with assms(2) have "start + n \<le> length src" unfolding list_all_iff by auto
  then show ?thesis
    using src by (simp add: segment_def driver_write_map_of slice_def min_plus_diff)
qed

lemma length_laid_out:
  assumes "map_of ibufs chl \<noteq> None" "run_fits ibufs dest_len cur stopped polls"
  shows "length (laid_out drv h ibufs polls chl) = counted polls"
  using assms
proof (induction polls arbitrary: h ibufs cur stopped)
  case Nil
  then show ?case by simp
next
  case (Cons p polls)
  show ?case
  proof (cases p)
    case None
    with Cons.prems have "run_fits ibufs dest_len cur stopped polls" by auto
    from Cons.IH [OF Cons.prems(1) this] show ?thesis by (simp add: None)
  next
    case (Some seg)
    obtain n start stop where seg: "seg = (n, start, stop)" by (cases seg)
    let ?w = "driver_write (out_samples (drv h GetStreamingLatestValues)) ibufs"
    from Cons.prems Some seg
    have f: "list_all (\<lambda>(chl, b). start + n \<le> length b) ibufs"
      and r: "run_fits ?w dest_len (cur + n) stop polls"
      by (simp_all add: run_fits_driver_write)
    have m: "map_of ?w chl \<noteq> None"
      using Cons.prems(1) by (simp add: driver_write_map_of)
    show ?thesis
      using Cons.IH [OF m r] segment_length_run [OF Cons.prems(1) f]
      by (simp add: Some seg Let_def)
  qed
qed

lemma stream_loop_done:
  "\<not> (nextSample t < total_buffer_len t \<and> \<not> autoStopOuter t) \<Longrightarrow> stream_loop fuel drv t = Some t"
  by (cases fuel) auto

lemma stream_loop_lays_out:
  assumes "answers drv (stream_trace t) polls"
    and "run_fits (intermediate_buffers t) (total_buffer_len t) (nextSample t)
           (autoStopOuter t) polls"
    and "length polls \<le> fuel"
    and "dest_ok t"
  shows "\<exists>t'. stream_loop fuel drv t = Some t' \<and>
           nextSample t' = nextSample t + counted polls \<and>
           complete_buffers t' =
             map (\<lambda>(chl, buf).
                    (chl, take (nextSample t) buf @
                          laid_out drv (stream_trace t) (intermediate_buffers t) polls chl @
                          drop (nextSample t + counted polls) buf))
               (complete_buffers t)"
  using assms
proof (induction polls arbitrary: t fuel)
  case Nil
  then have "stream_loop fuel drv t = Some t"
    by (simp add: stream_loop_done)
  moreover have "complete_buffers t =
      map (\<lambda>(chl, buf). (chl, take (nextSample t) buf @ [] @ drop (nextSample t + 0) buf))
        (complete_buffers t)"
    by (induction "complete_buffers t") auto
  ultimately show ?case by simp
next
  case (Cons p polls)
  from Cons.prems(3) obtain k where k: "fuel = Suc k" "length polls \<le> k"
    by (cases fuel) auto
  have go: "nextSample t < total_buffer_len t \<and> \<not> autoStopOuter t"
    using Cons.prems(2) by (cases p) auto
  show ?case
  proof (cases p)
    case None
    let ?t1 = "t\<lparr>wasCalledBack := False,
       stream_trace := stream_trace t @ [Call GetStreamingLatestValues, Sleep]\<rparr>"
    from Cons.prems(1) None have idle: "out_segment (drv (stream_trace t) GetStreamingLatestValues) = None"
      and a1: "answers drv (stream_trace ?t1) polls" by simp_all
    have st: "stream_step drv t = ?t1" using idle by (rule stream_step_idle)
    from Cons.prems(2) None have r1: "run_fits (intermediate_buffers ?t1) (total_buffer_len ?t1)
        (nextSample ?t1) (autoStopOuter ?t1) polls" by auto
    from Cons.prems(4) have d1: "dest_ok ?t1" by (simp add: dest_ok_def)
    from Cons.IH [OF a1 r1 k(2) d1] obtain t' where
        "stream_loop k drv ?t1 = Some t'"
        "nextSample t' = nextSample ?t1 + counted polls"
        "complete_buffers t' =
             map (\<lambda>(chl, buf).
                    (chl, take (nextSample ?t1) buf @
                          laid_out drv (stream_trace ?t1) (intermediate_buffers ?t1) polls chl @
                          drop (nextSample ?t1 + counted polls) buf))
               (complete_buffers ?t1)"
      by blast
    then show ?thesis
      using go st by (simp add: k(1) None)
  next
    case (Some seg)
    obtain n start stop where seg: "seg = (n, start, stop)" by (cases seg)
    let ?f = "out_samples (drv (stream_trace t) GetStreamingLatestValues)"
    let ?w = "driver_write ?f (intermediate_buffers t)"
    let ?c = "nextSample t"
    let ?h1 = "stream_trace t @ [Call GetStreamingLatestValues, Callback n start stop]"
    let ?t1 = "t\<lparr>wasCalledBack := True, intermediate_buffers := ?w, stream_trace := ?h1,
       complete_buffers :=
         map (\<lambda>(chl, buf). (chl, place buf ?c (segment ?w chl start n))) (complete_buffers t),
       nextSample := ?c + n,
       autoStopOuter := (autoStopOuter t \<or> stop)\<rparr>"
    from Cons.prems(1) Some seg
    have sg: "out_segment (drv (stream_trace t) GetStreamingLatestValues) = Some (n, start, stop)"
      and a1: "answers drv (stream_trace ?t1) polls" by simp_all
    from Cons.prems(2) Some seg
    have fit: "?c + n \<le> total_buffer_len t"
        "list_all (\<lambda>(chl, b). start + n \<le> length b) (intermediate_buffers t)"
      and r0: "run_fits (intermediate_buffers t) (total_buffer_len t) (?c + n) stop polls"
      by simp_all
    have sf: "segment_fits t n start"
      using Cons.prems(4) fit by (rule segment_fits_run)
    have st: "stream_step drv t = ?t1" using sg sf by (rule stream_step_segment)
    have r1: "run_fits (intermediate_buffers ?t1) (total_buffer_len ?t1)
        (nextSample ?t1) (autoStopOuter ?t1) polls"
      using r0 go by (simp add: run_fits_driver_write)
    have each: "length buf = total_buffer_len t \<and> map_of (intermediate_buffers t) chl \<noteq> None \<and>
        length (segment ?w chl start n) = n"
      if "(chl, buf) \<in> set (complete_buffers t)" for chl buf
    proof -
      from Cons.prems(4) that have "length buf = total_buffer_len t"
          "map_of (intermediate_buffers t) chl \<noteq> None"
        unfolding dest_ok_def list_all_iff by auto
      then show ?thesis using segment_length_run [OF _ fit(2)] by simp
    qed
    have d1: "dest_ok ?t1"
      unfolding dest_ok_def list_all_iff
      using each fit(1) by (auto simp: length_place driver_write_map_of)
    from Cons.IH [OF a1 r1 k(2) d1] obtain t' where
        t': "stream_loop k drv ?t1 = Some t'"
        "nextSample t' = nextSample ?t1 + counted polls"
        "complete_buffers t' =
             map (\<lambda>(chl, buf).
                    (chl, take (nextSample ?t1) buf @
                          laid_out drv (stream_trace ?t1) (intermediate_buffers ?t1) polls chl @
                          drop (nextSample ?t1 + counted polls) buf))
               (complete_buffers ?t1)"
      by blast
    have "complete_buffers t' =
             map (\<lambda>(chl, buf).
                    (chl, take ?c buf @
                          laid_out drv (stream_trace t) (intermediate_buffers t) (p # polls) chl @
                          drop (?c + counted (p # polls)) buf))
               (complete_buffers t)"
      unfolding t'(3)
    proof (simp add: Some seg Let_def, intro ballI)
      fix x
      assume x: "x \<in> set (complete_buffers t)"
      obtain chl buf where xe: "x = (chl, buf)" by (cases x)
      from each [of chl buf] x xe fit(1)
      have l: "?c + length (segment ?w chl start n) \<le> length buf"
        and n: "length (segment ?w chl start n) = n"
        by simp_all
      from take_place [OF l] drop_place [OF l, of "counted polls"]
      show "(case case x of (chl, buf) \<Rightarrow> (chl, place buf ?c (segment ?w chl start n)) of
              (chl, buf) \<Rightarrow>
                (chl, take (?c + n) buf @ laid_out drv ?h1 ?w polls chl @
                      drop (?c + n + counted polls) buf)) =
            (case x of
              (chl, buf) \<Rightarrow>
                (chl, take ?c buf @ segment ?w chl start n @ laid_out drv ?h1 ?w polls chl @
                      drop (?c + (n + counted polls)) buf))"
        by (simp add: xe n add.assoc)
    qed
    then show ?thesis
      using t'(1,2) go st by (simp add: k(1) Some seg)
  qed
qed

text \<open>
  C4. In a stream collection whose delivered segments lie inside the intermediate buffers and
  fit into the destination, \<open>stream_traces\<close> starts the cursor at zero on a zeroed destination
  and copies each delivered segment to the cursor, which advances by that segment's sample
  count: when the loop ends, every channel's destination holds the delivered segments one
  after the other from offset zero, with no gap and no overlap, followed by the untouched
  zeros, and the cursor is the number of samples delivered. Two segments of 50 and 30
  samples land at offsets 0 and 50 and make a contiguous prefix of 80 samples in every
  channel.
\<close>

theorem stream_traces_lays_out_segments:
  assumes "answers drv (stream_trace s) polls"
    and "run_fits (intermediate_buffers s) (total_buffer_len s) 0 False polls"
    and "length polls \<le> fuel"
  shows "\<exists>out s'. stream_traces fuel drv s = Some (out, s') \<and>
           nextSample s' = counted polls \<and>
           complete_buffers s' =
             map (\<lambda>(chl, b).
                    (chl, laid_out drv (stream_trace s) (intermediate_buffers s) polls chl @
                          replicate (total_buffer_len s - counted polls) 0))
               (intermediate_buffers s) \<and>
           list_all (\<lambda>(chl, b).
               length (laid_out drv (stream_trace s) (intermediate_buffers s) polls chl) =
                 counted polls)
             (intermediate_buffers s)"
proof -
  let ?s0 = "s\<lparr>complete_buffers :=
                   map (\<lambda>(key, b). (key, replicate (total_buffer_len s) 0))
                     (intermediate_buffers s),
                 nextSample := 0, autoStopOuter := False, wasCalledBack := False\<rparr>"
  have keys: "map_of (intermediate_buffers s) chl \<noteq> None"
    if "(chl, b) \<in> set (intermediate_buffers s)" for chl b
    using that by (metis map_of_eq_None_iff fst_conv image_eqI)
  have d0: "dest_ok ?s0"
    unfolding dest_ok_def list_all_iff using keys by auto
  have a0: "answers drv (stream_trace ?s0) polls" using assms(1) by simp
  have r0: "run_fits (intermediate_buffers ?s0) (total_buffer_len ?s0) (nextSample ?s0)
      (autoStopOuter ?s0) polls"
    using assms(2) by simp
  from stream_loop_lays_out [OF a0 r0 assms(3) d0] obtain t' where
      t': "stream_loop fuel drv ?s0 = Some t'"
        "nextSample t' = counted polls"
        "complete_buffers t' =
             map (\<lambda>(chl, buf).
                    (chl, take (nextSample ?s0) buf @
                          laid_out drv (stream_trace ?s0) (intermediate_buffers ?s0) polls chl @
                          drop (nextSample ?s0 + counted polls) buf))
               (complete_buffers ?s0)"
    by auto
  have c: "complete_buffers t' =
             map (\<lambda>(chl, b).
                    (chl, laid_out drv (stream_trace s) (intermediate_buffers s) polls chl @
                          replicate (total_buffer_len s - counted polls) 0))
               (intermediate_buffers s)"
    unfolding t'(3) by (induction "intermediate_buffers s") (auto simp: split_def)
  have l: "list_all (\<lambda>(chl, b).
               length (laid_out drv (stream_trace s) (intermediate_buffers s) polls chl) =
                 counted polls)
             (intermediate_buffers s)"
    unfolding list_all_iff using keys length_laid_out [OF _ assms(2)] by auto
  have "\<exists>out s'. stream_traces fuel drv s = Some (out, s') \<and>
          nextSample s' = nextSample t' \<and> complete_buffers s' = complete_buffers t'"
    using t'(1)
    by (auto simp: stream_traces_def Let_def split: sum.splits)
  with t'(2) c l show ?thesis by auto
qed

theorem stream_traces_lays_out_segments_witness:
  "map_option (\<lambda>p. (nextSample (snd p), complete_buffers (snd p)))
     (stream_traces 2 two_segments stream_session) =
   Some (80, [(''A'', replicate 50 1 @ replicate 30 2 @ replicate 4016 0),
              (''B'', replicate 50 1 @ replicate 30 2 @ replicate 4016 0)])"
proof -
  let ?polls = "[Some (50, 0, False), Some (30, 50, True)]"
  have a: "answers two_segments (stream_trace stream_session) ?polls"
    by (simp add: two_segments_def stream_session_def ok_reply_def)
  have r: "run_fits (intermediate_buffers stream_session) (total_buffer_len stream_session)
      0 False ?polls"
    by (simp add: stream_session_def)
  have f: "length ?polls \<le> 2" by simp
  from stream_traces_lays_out_segments [OF a r f] obtain out s' where
      s': "stream_traces 2 two_segments stream_session = Some (out, s')"
        "nextSample s' = counted ?polls"
        "complete_buffers s' =
             map (\<lambda>(chl, b).
                    (chl, laid_out two_segments (stream_trace stream_session)
                            (intermediate_buffers stream_session) ?polls chl @
                          replicate (total_buffer_len stream_session - counted ?polls) 0))
               (intermediate_buffers stream_session)"
    by blast
  have "complete_buffers s' =
      [(''A'', replicate 50 1 @ replicate 30 2 @ replicate 4016 0),
       (''B'', replicate 50 1 @ replicate 30 2 @ replicate 4016 0)]"
    unfolding s'(3)
    by (simp add: stream_session_def two_segments_def ok_reply_def driver_write_def
        segment_def slice_def)
  with s'(1,2) show ?thesis by simp
qed

section \<open>Collecting a block twice\<close>






lemma PS_AB: "PS4000A_CHANNEL ''A'' = Some 0" "PS4000A_CHANNEL ''B'' = Some 1"
  by (simp_all add: PS4000A_CHANNEL_def)

lemma session_AB_eq:
  "session_AB =
     \<lparr>buffers = [], active_channels = [''A'', ''B''], channel_ranges = [(''A'', 7), (''B'', 7)],
      max_ADC = 32767, timebase = Some 399999999, block_size = Some 2,
      pre_trigger_samples = Some 0, post_trigger_samples = Some 2,
      trace = [Call OpenUnit, Call MaximumValue, Call (SetChannel 0 True 7 0),
               Call (SetChannel 1 True 7 0), Call (GetTimebase2 399999999 2)]\<rparr>"
  by (simp add: session_AB_def setup_block_def int_mul_def py_floor_def convert_timebase_two_samples setup_channel_def coerce_2000 PS_AB
      Picoscope_init_def get_max_ADC_def invoke_def ok_driver_def ok_reply_def
      assert_pico_ok_def new_picoscope_def)

lemma session_run_eq:
  "session_run =
     \<lparr>buffers = [(''A'', CArray [0, 0]), (''B'', CArray [0, 0])],
      active_channels = [''A'', ''B''], channel_ranges = [(''A'', 7), (''B'', 7)],
      max_ADC = 32767, timebase = Some 399999999, block_size = Some 2,
      pre_trigger_samples = Some 0, post_trigger_samples = Some 2,
      trace = [Call OpenUnit, Call MaximumValue, Call (SetChannel 0 True 7 0),
               Call (SetChannel 1 True 7 0), Call (GetTimebase2 399999999 2),
               Call (SetDataBuffers 0 2), Call (SetDataBuffers 1 2),
               Call (RunBlock 0 2 399999999)]\<rparr>"
  by (simp add: session_run_def session_AB_eq run_block_def PS_AB invoke_def ok_driver_def
      ok_reply_def assert_pico_ok_def numeral_2_eq_2)

lemma wait_ready_ready:
  "out_value (drv (trace s) IsReady) \<noteq> 0 \<Longrightarrow> 0 < fuel \<Longrightarrow>
     wait_ready fuel drv s = Some (s\<lparr>trace := trace s @ [Call IsReady]\<rparr>)"
  by (cases fuel) (simp_all add: invoke_def)





section \<open>Driver statuses\<close>

text \<open>
  C6. Every driver call that returns a status other than success is to abort the operation
  and reach the caller. \<open>run_block\<close> and \<open>get_block_traces\<close> do not do so: with a driver that
  rejects the set-data-buffers call for channel A (status 13) and accepts the one for
  channel B, \<open>run_block\<close> goes on, starts the capture and returns normally; and a readiness
  poll that returns status 13 is followed by the transfer and a normal return.
\<close>

theorem run_block_swallows_status:
  "status (rejecting_driver (trace session_AB) (SetDataBuffers 0 2)) = 13 \<and>
   run_block rejecting_driver session_AB = (Inr (), session_run) \<and>
   status (rejecting_driver (trace session_run) IsReady) = 13 \<and>
   map_option fst (get_block_traces 1 rejecting_driver session_run) =
     Some (Inr [(''A'', PyList [0, 0]), (''B'', PyList [0, 0])])"
proof -
  have r: "out_value (rejecting_driver h IsReady) \<noteq> 0" for h
    by (simp add: rejecting_driver_def ok_reply_def)
  have "run_block rejecting_driver session_AB = (Inr (), session_run)"
    unfolding session_run_eq
    by (simp add: session_AB_eq run_block_def PS_AB invoke_def rejecting_driver_def
      ok_reply_def assert_pico_ok_def numeral_2_eq_2)
  moreover have "map_option fst (get_block_traces 1 rejecting_driver session_run) =
     Some (Inr [(''A'', PyList [0, 0]), (''B'', PyList [0, 0])])"
    by (simp add: get_block_traces_def wait_ready_ready r session_run_eq invoke_def
      rejecting_driver_def ok_reply_def
      assert_pico_ok_def store_samples_def adc2mV_def samples_of_def allowed_ranges_def)
  ultimately show ?thesis
    by (simp add: rejecting_driver_def ok_reply_def)
qed



section \<open>Channel names as keys\<close>

lemma name_keyed_trace [simp]: "name_keyed (s\<lparr>trace := tr\<rparr>) = name_keyed s"
  by (simp add: name_keyed_def)













section \<open>Polling\<close>

lemma wait_ready_trace:
  "wait_ready fuel drv s = Some s' \<Longrightarrow>
     \<exists>k. 0 < k \<and> k \<le> fuel \<and> s' = s\<lparr>trace := trace s @ replicate k (Call IsReady)\<rparr>"
proof (induction fuel arbitrary: s)
  case 0
  then show ?case by simp
next
  case (Suc fuel)
  show ?case
  proof (cases "out_value (drv (trace s) IsReady) = 0")
    case True
    with Suc.prems have "wait_ready fuel drv (s\<lparr>trace := trace s @ [Call IsReady]\<rparr>) = Some s'"
      by (simp add: invoke_def)
    from Suc.IH [OF this] obtain k where k: "0 < k" "k \<le> fuel"
      "s' = s\<lparr>trace := trace s @ [Call IsReady]\<rparr>
              \<lparr>trace := trace (s\<lparr>trace := trace s @ [Call IsReady]\<rparr>) @ replicate k (Call IsReady)\<rparr>"
      by blast
    have "s' = s\<lparr>trace := trace s @ replicate (Suc k) (Call IsReady)\<rparr>"
      using k(3) by simp
    with k(1,2) show ?thesis
      by (metis Suc_le_mono zero_less_Suc)
  next
    case False
    with Suc.prems have "s' = s\<lparr>trace := trace s @ replicate (Suc 0) (Call IsReady)\<rparr>"
      by (auto simp: invoke_def)
    then show ?thesis
      by (metis Suc_le_mono zero_less_Suc le0)
  qed
qed

lemma streaming_callback_fields:
  "wasCalledBack (snd (streaming_callback s n i a)) \<and>
   stream_trace (snd (streaming_callback s n i a)) = stream_trace s"
  by (simp add: streaming_callback_def Let_def split: prod.splits option.splits)

lemma stream_step_trace:
  "stream_trace (stream_step drv s) =
     stream_trace s @
       (case out_segment (drv (stream_trace s) GetStreamingLatestValues) of
          None \<Rightarrow> [Call GetStreamingLatestValues, Sleep]
        | Some (n, i, a) \<Rightarrow> [Call GetStreamingLatestValues, Callback n i a])"
  by (simp add: stream_step_def get_latest_values_def Let_def streaming_callback_fields
      split: option.splits)

lemma stream_step_round:
  "\<exists>e. after_poll e \<and>
       stream_trace (stream_step drv s) = stream_trace s @ [Call GetStreamingLatestValues, e]"
  unfolding stream_step_trace
  by (auto simp: after_poll_def split: option.splits)

lemma stream_loop_rounds:
  "stream_loop fuel drv s = Some s' \<Longrightarrow>
     \<exists>tr. stream_trace s' = stream_trace s @ tr \<and> poll_rounds tr"
proof (induction fuel arbitrary: s)
  case 0
  then have "s' = s" by (simp split: if_splits)
  then show ?case by simp
next
  case (Suc fuel)
  show ?case
  proof (cases "nextSample s < total_buffer_len s \<and> \<not> autoStopOuter s")
    case True
    with Suc.prems have "stream_loop fuel drv (stream_step drv s) = Some s'" by simp
    from Suc.IH [OF this] obtain tr where
        tr: "stream_trace s' = stream_trace (stream_step drv s) @ tr" "poll_rounds tr"
      by blast
    from stream_step_round [of drv s] obtain e where
        e: "after_poll e"
           "stream_trace (stream_step drv s) = stream_trace s @ [Call GetStreamingLatestValues, e]"
      by blast
    have "stream_trace s' = stream_trace s @ (Call GetStreamingLatestValues # e # tr)"
      using tr(1) e(2) by simp
    moreover have "poll_rounds (Call GetStreamingLatestValues # e # tr)"
      using tr(2) e(1) by simp
    ultimately show ?thesis by blast
  next
    case False
    with Suc.prems have "s' = s" by (simp split: if_splits)
    then show ?thesis by simp
  qed
qed

lemma backs_off_skip: "\<not> is_poll e \<Longrightarrow> backs_off (e # rest) = backs_off rest"
  by (cases rest) simp_all

lemma after_poll_not_poll: "after_poll e \<Longrightarrow> \<not> is_poll e"
  by (cases e) (simp_all add: after_poll_def is_poll_def)

lemma poll_rounds_backs_off: "poll_rounds tr \<Longrightarrow> backs_off tr"
proof (induction tr rule: poll_rounds.induct)
  case (1 e1 e2 rest)
  then show ?case
    by (simp add: after_poll_not_poll backs_off_skip)
qed simp_all

text \<open>
  C8, as amended. The streaming collection loop backs off: every poll is followed at once
  either by the callback that delivers data or, when it reported no data, by the fixed
  sleep, so no two polls follow each other directly. The block-mode readiness loop does
  not sleep: the polls it makes until the driver reports a captured block follow each other
  with nothing in between.
\<close>

theorem polling_back_off:
  "(wait_ready fuel drv s = Some s' \<longrightarrow>
      (\<exists>k. 0 < k \<and> k \<le> fuel \<and> trace s' = trace s @ replicate k (Call IsReady))) \<and>
   (stream_loop fuel2 drv2 t = Some t' \<longrightarrow>
      (\<exists>tr. stream_trace t' = stream_trace t @ tr \<and> poll_rounds tr \<and> backs_off tr))"
proof (intro conjI impI)
  assume "wait_ready fuel drv s = Some s'"
  from wait_ready_trace [OF this]
  show "\<exists>k. 0 < k \<and> k \<le> fuel \<and> trace s' = trace s @ replicate k (Call IsReady)"
    by auto
next
  assume "stream_loop fuel2 drv2 t = Some t'"
  from stream_loop_rounds [OF this]
  show "\<exists>tr. stream_trace t' = stream_trace t @ tr \<and> poll_rounds tr \<and> backs_off tr"
    using poll_rounds_backs_off by blast
qed

lemma wait_ready_numeral:
  "wait_ready (numeral n) drv s =
     (let (r, s1) = invoke drv IsReady s
      in if out_value r = 0 then wait_ready (pred_numeral n) drv s1 else Some s1)"
  by (simp add: numeral_eq_Suc)

lemma stream_loop_numeral:
  "stream_loop (numeral n) drv s =
     (if nextSample s < total_buffer_len s \<and> \<not> autoStopOuter s
      then stream_loop (pred_numeral n) drv (stream_step drv s) else Some s)"
  by (simp add: numeral_eq_Suc)

lemma slow_wait:
  "wait_ready 2 slow_driver session_run =
     Some (session_run\<lparr>trace := trace session_run @ [Call IsReady, Call IsReady]\<rparr>)"
  by (simp add: wait_ready_numeral invoke_def slow_driver_def ok_reply_def session_run_eq)

lemma late_stream:
  "map_option stream_trace (stream_loop 2 late_driver stream_start) =
     Some [Call GetStreamingLatestValues, Sleep,
           Call GetStreamingLatestValues, Callback 30 0 True]"
  by (simp add: stream_loop_numeral stream_step_def get_latest_values_def streaming_callback_def
      late_driver_def ok_reply_def stream_start_def driver_write_def assign_slice_def slice_def
      Let_def)

text \<open>
  C8 as stated fails for block mode: with a driver that is not ready at the first poll,
  \<open>get_block_traces\<close> polls twice in a row with no sleep between the two polls.
\<close>

theorem block_poll_no_delay_counterexample:
  "wait_ready 2 slow_driver session_run =
     Some (session_run\<lparr>trace := trace session_run @ [Call IsReady, Call IsReady]\<rparr>) \<and>
   map_option (\<lambda>p. drop (length (trace session_run)) (trace (snd p)))
     (get_block_traces 2 slow_driver session_run) =
     Some [Call IsReady, Call IsReady, Call (GetValues 2)] \<and>
   \<not> backs_off [Call IsReady, Call IsReady, Call (GetValues 2)]"
proof -
  have "map_option (\<lambda>p. drop (length (trace session_run)) (trace (snd p)))
     (get_block_traces 2 slow_driver session_run) =
     Some [Call IsReady, Call IsReady, Call (GetValues 2)]"
    unfolding get_block_traces_def slow_wait
    by (simp add: session_run_eq invoke_def slow_driver_def ok_reply_def
      assert_pico_ok_def store_samples_def adc2mV_def samples_of_def allowed_ranges_def)
  then show ?thesis
    by (simp add: slow_wait is_poll_def)
qed

theorem polling_back_off_witness:
  "map_option trace (wait_ready 2 slow_driver session_run) =
     Some (trace session_run @ replicate 2 (Call IsReady)) \<and>
   map_option stream_trace (stream_loop 2 late_driver stream_start) =
     Some [Call GetStreamingLatestValues, Sleep,
           Call GetStreamingLatestValues, Callback 30 0 True] \<and>
   poll_rounds [Call GetStreamingLatestValues, Sleep,
           Call GetStreamingLatestValues, Callback 30 0 True] \<and>
   backs_off [Call GetStreamingLatestValues, Sleep,
           Call GetStreamingLatestValues, Callback 30 0 True]"
proof -
  from late_stream obtain T where T: "stream_loop 2 late_driver stream_start = Some T"
    "stream_trace T = [Call GetStreamingLatestValues, Sleep,
           Call GetStreamingLatestValues, Callback 30 0 True]"
    by auto
  note p = polling_back_off [of 2 slow_driver session_run
      "session_run\<lparr>trace := trace session_run @ [Call IsReady, Call IsReady]\<rparr>"
      2 late_driver stream_start T]
  from p slow_wait have "\<exists>k. 0 < k \<and> k \<le> (2 :: nat) \<and>
      trace session_run @ [Call IsReady, Call IsReady] =
        trace session_run @ replicate k (Call IsReady)"
    by simp
  from p T(1) obtain tr where
      tr: "stream_trace T = stream_trace stream_start @ tr" "poll_rounds tr" "backs_off tr"
    by blast
  from tr(1) T(2) have "tr = [Call GetStreamingLatestValues, Sleep,
           Call GetStreamingLatestValues, Callback 30 0 True]"
    by (simp add: stream_start_def)
  with tr(2,3) show ?thesis
    unfolding late_stream slow_wait by (simp add: numeral_2_eq_2)
qed

end
